theory Spec2Isabelle
  imports Complex_Main
begin

section \<open>The Markov composer of composer.py\<close>

text \<open>
  The development embeds the class \<open>MarkovComposer\<close> of
  \<^verbatim>\<open>DEV/AI_Music_Composer/composer.py\<close>. Python dictionaries are association lists in
  insertion order (what \<open>list(d.keys())\<close> and \<open>d.items()\<close> enumerate), Python integers are
  \<open>int\<close>, the quotients \<open>count / total\<close> and \<open>sum / len\<close> are exact rationals (the source
  computes them in binary floating point), an exception is an \<open>error option\<close> returned
  beside the state the call has reached when it is raised, and the pseudo-random
  generator is a list of naturals of which every draw consumes the head.
\<close>

subsection \<open>Events, tracks and the world outside the composer\<close>

type_synonym pitch = int

text \<open>
  A \<open>mido\<close> message, by its \<open>type\<close>: \<open>NoteOn note velocity time channel\<close>,
  \<open>NoteOff note velocity time channel\<close>, \<open>ProgramChange program channel\<close>, the meta
  message \<open>SetTempo tempo\<close>, and every other message.
\<close>

datatype msg =
    NoteOn pitch int int int
  | NoteOff pitch int int int
  | ProgramChange int int
  | SetTempo int
  | OtherMsg

type_synonym track = "msg list"

datatype track_type = Melody | Bass | Other

datatype error =
    ZeroDivisionError
  | KeyError
  | IndexError
  | ValueError
  | UnboundLocalError
  | LibraryError

text \<open>The lines the composer prints, with the values its format strings interpolate.\<close>

datatype line =
    ErrorProcessing string
  | NoSuitableTracks track_type
  | TrainingChain track_type nat
  | SkippingTraining track_type
  | NotEnoughNotes nat nat track_type
  | NoModelsTrained
  | SkippingGeneration track_type
  | GeneratedSuccessfully string

text \<open>
  \<open>files\<close> maps a path to the tracks of the MIDI file stored there; reading a path
  outside its domain raises. \<open>entropy\<close> is the process-wide random source.
\<close>

record world =
  stdout :: "line list"
  files :: "string \<rightharpoonup> track list"
  entropy :: "nat list"

definition print :: "line \<Rightarrow> world \<Rightarrow> world" where
  "print l w = w\<lparr>stdout := stdout w @ [l]\<rparr>"

definition draw :: "world \<Rightarrow> nat \<times> world" where
  "draw w = (case entropy w of [] \<Rightarrow> (0, w) | r # rs \<Rightarrow> (r, w\<lparr>entropy := rs\<rparr>))"

subsection \<open>The composer\<close>

type_synonym dist = "(pitch \<times> rat) list"

type_synonym table = "(pitch list \<times> dist) list"

record composer =
  order :: nat
  melody :: table
  bass :: table

text \<open>\<open>__init__\<close>: both tables empty.\<close>

definition MarkovComposer :: "nat \<Rightarrow> composer" where
  "MarkovComposer k = \<lparr>order = k, melody = [], bass = []\<rparr>"

definition note_durations :: "int list" where
  "note_durations = [480, 240, 120, 360, 60]"

text \<open>\<open>self.transitions[track_type]\<close>: the dictionary has the keys 'melody' and 'bass' only.\<close>

fun get_transitions :: "composer \<Rightarrow> track_type \<Rightarrow> table option" where
  "get_transitions c Melody = Some (melody c)"
| "get_transitions c Bass = Some (bass c)"
| "get_transitions c Other = None"

fun set_transitions :: "composer \<Rightarrow> track_type \<Rightarrow> table \<Rightarrow> composer" where
  "set_transitions c Melody t = c\<lparr>melody := t\<rparr>"
| "set_transitions c Bass t = c\<lparr>bass := t\<rparr>"
| "set_transitions c Other t = c"

subsection \<open>\<open>_classify_track\<close> and \<open>_extract_notes_from_track\<close>\<close>

record scan =
  notes_in_track :: "pitch list"
  min_pitch :: int
  max_pitch :: int
  is_percussion_channel :: bool

definition scan_init :: scan where
  "scan_init = \<lparr>notes_in_track = [], min_pitch = 128, max_pitch = -1,
     is_percussion_channel = False\<rparr>"

fun scan_msg :: "msg \<Rightarrow> scan \<Rightarrow> scan" where
  "scan_msg (ProgramChange program channel) s =
     (if channel = 9 \<or> program \<ge> 112 then s\<lparr>is_percussion_channel := True\<rparr> else s)"
| "scan_msg (NoteOn note velocity time channel) s =
     (if velocity > 0
      then s\<lparr>notes_in_track := notes_in_track s @ [note],
             min_pitch := (if note < min_pitch s then note else min_pitch s),
             max_pitch := (if note > max_pitch s then note else max_pitch s)\<rparr>
      else s)"
| "scan_msg _ s = s"

definition classify_track :: "track \<Rightarrow> track_type" where
  "classify_track track =
     (let s = fold scan_msg track scan_init in
      if notes_in_track s = [] then Other
      else if is_percussion_channel s then Other
      else
        let average_pitch =
              (of_int (sum_list (notes_in_track s)) :: rat) / of_nat (length (notes_in_track s));
            pitch_range = max_pitch s - min_pitch s
        in if average_pitch < 48 \<and> pitch_range < 24 \<and> length (notes_in_track s) > 10
           then Bass
           else if average_pitch \<ge> 60 \<and> pitch_range > 12 \<and> length (notes_in_track s) > 20
           then Melody
           else Other)"

fun extract_notes_from_track :: "track \<Rightarrow> pitch list" where
  "extract_notes_from_track [] = []"
| "extract_notes_from_track (NoteOn note velocity time channel # track) =
     (if velocity > 0 then note # extract_notes_from_track track
      else extract_notes_from_track track)"
| "extract_notes_from_track (m # track) = extract_notes_from_track track"

subsection \<open>\<open>_build_transitions\<close>\<close>

text \<open>
  \<open>next_notes[next_note] += 1\<close> on a \<open>defaultdict(int)\<close>: a missing key is entered at the
  end with the value \<open>0 + 1\<close>.
\<close>

fun count_next :: "pitch \<Rightarrow> dist \<Rightarrow> dist" where
  "count_next n [] = [(n, 1)]"
| "count_next n ((k, v) # d) = (if k = n then (k, v + 1) # d else (k, v) # count_next n d)"

text \<open>
  \<open>transitions[state][next_note] += 1\<close>: a missing state is entered at the end with an
  empty inner dictionary first.
\<close>

fun count_transition :: "pitch list \<Rightarrow> pitch \<Rightarrow> table \<Rightarrow> table" where
  "count_transition s n [] = [(s, count_next n [])]"
| "count_transition s n ((k, d) # t) =
     (if k = s then (k, count_next n d) # t else (k, d) # count_transition s n t)"

text \<open>The first loop: \<open>for i in range(len(notes) - self.order)\<close>.\<close>

definition count_transitions :: "nat \<Rightarrow> pitch list \<Rightarrow> table \<Rightarrow> table" where
  "count_transitions k notes transitions =
     fold (\<lambda>i t. count_transition (take k (drop i notes)) (notes ! (i + k)) t)
       [0..<length notes - k] transitions"

text \<open>
  The second loop. \<open>count / total\<close> raises when \<open>total\<close> is zero, which the first
  successor of a state meets; the states before it are normalised by then, that state and
  the ones after it are not.
\<close>

definition normalize_dist :: "dist \<Rightarrow> dist" where
  "normalize_dist next_notes =
     (let total = sum_list (map snd next_notes)
      in map (\<lambda>(next_note, count). (next_note, count / total)) next_notes)"

fun normalize_transitions :: "table \<Rightarrow> table \<times> error option" where
  "normalize_transitions [] = ([], None)"
| "normalize_transitions ((state, next_notes) # t) =
     (if next_notes \<noteq> [] \<and> sum_list (map snd next_notes) = 0
      then ((state, next_notes) # t, Some ZeroDivisionError)
      else case normalize_transitions t of (t', e) \<Rightarrow> ((state, normalize_dist next_notes) # t', e))"

definition build_transitions ::
  "pitch list \<Rightarrow> track_type \<Rightarrow> composer \<times> world \<Rightarrow> (composer \<times> world) \<times> error option" where
  "build_transitions notes tt cw =
     (case cw of (c, w) \<Rightarrow>
      case get_transitions c tt of
        None \<Rightarrow> ((c, w), Some KeyError)
      | Some transitions \<Rightarrow>
          if length notes < order c + 1
          then ((c, print (NotEnoughNotes (length notes) (order c) tt) w), None)
          else case normalize_transitions (count_transitions (order c) notes transitions) of
                 (t', e) \<Rightarrow> ((set_transitions c tt t', w), e))"

subsection \<open>\<open>train\<close>\<close>

fun is_note :: "msg \<Rightarrow> bool" where
  "is_note (NoteOn _ _ _ _) = True"
| "is_note (NoteOff _ _ _ _) = True"
| "is_note _ = False"

text \<open>The loop over the tracks of one file, on the two accumulators.\<close>

fun train_tracks :: "track list \<Rightarrow> pitch list \<times> pitch list \<Rightarrow> pitch list \<times> pitch list" where
  "train_tracks [] acc = acc"
| "train_tracks (track # tracks) (melody_notes, bass_notes) =
     (if \<not> list_ex is_note track then train_tracks tracks (melody_notes, bass_notes)
      else
        let track_type = classify_track track;
            notes = extract_notes_from_track track
        in if track_type = Melody then train_tracks tracks (melody_notes @ notes, bass_notes)
           else if track_type = Bass then train_tracks tracks (melody_notes, bass_notes @ notes)
           else train_tracks tracks (melody_notes, bass_notes))"

text \<open>
  The loop over the files: a file that cannot be read is reported and skipped by the
  \<open>except\<close> clause.
\<close>

fun train_files ::
  "string list \<Rightarrow> (pitch list \<times> pitch list) \<times> world \<Rightarrow> (pitch list \<times> pitch list) \<times> world" where
  "train_files [] aw = aw"
| "train_files (file_path # midi_files) (acc, w) =
     (case files w file_path of
        None \<Rightarrow> train_files midi_files (acc, print (ErrorProcessing file_path) w)
      | Some tracks \<Rightarrow> train_files midi_files (train_tracks tracks acc, w))"

text \<open>The two reports on an empty accumulator, and the two training blocks.\<close>

definition report_missing :: "pitch list \<Rightarrow> track_type \<Rightarrow> world \<Rightarrow> world" where
  "report_missing notes tt w = (if notes = [] then print (NoSuitableTracks tt) w else w)"

definition train_voice ::
  "pitch list \<Rightarrow> track_type \<Rightarrow> composer \<times> world \<Rightarrow> (composer \<times> world) \<times> error option" where
  "train_voice notes tt cw =
     (case cw of (c, w) \<Rightarrow>
      if notes \<noteq> []
      then build_transitions notes tt (c, print (TrainingChain tt (length notes)) w)
      else ((c, print (SkippingTraining tt) w), None))"

definition train :: "string list \<Rightarrow> composer \<times> world \<Rightarrow> (composer \<times> world) \<times> error option" where
  "train midi_files cw =
     (case cw of (c, w0) \<Rightarrow>
      case train_files midi_files (([], []), w0) of ((melody_notes, bass_notes), w1) \<Rightarrow>
        let w2 = report_missing melody_notes Melody w1;
            w3 = report_missing bass_notes Bass w2
        in case train_voice melody_notes Melody (c, w3) of
             (cw1, Some e) \<Rightarrow> (cw1, Some e)
           | (cw1, None) \<Rightarrow> train_voice bass_notes Bass cw1)"

subsection \<open>\<open>_generate_track\<close>\<close>

text \<open>
  The local variables of the call, with the track it appends to and the world.
  \<open>channel\<close> is \<open>None\<close> while the name is unbound. \<open>mido.Message\<close> is taken to accept
  the values it is given here (pitches read from MIDI files, velocities and durations
  drawn from the fixed ranges, channels 0 and 1).
\<close>

record gen =
  current_state :: "pitch list"
  generated_notes :: "pitch list"
  out_track :: track
  channel :: "int option"
  gen_world :: world

text \<open>\<open>random.choice(seq)\<close> for a non-empty \<open>seq\<close>, from the number drawn.\<close>

definition choice :: "'a list \<Rightarrow> nat \<Rightarrow> 'a" where
  "choice seq r = seq ! (r mod length seq)"

text \<open>\<open>generated_notes[-self.order:]\<close>: with order 0 the slice \<open>[-0:]\<close> is the whole list.\<close>

definition last_notes :: "nat \<Rightarrow> pitch list \<Rightarrow> pitch list" where
  "last_notes k xs = (if k = 0 then xs else drop (length xs - k) xs)"

text \<open>
  One iteration of \<open>for _ in range(length)\<close>. \<open>random.choices\<close> raises when the weights
  total zero or less, \<open>random.randint\<close> when the range is empty, \<open>generated_notes[-1]\<close>
  when the list is empty (the note-on is appended by then).
\<close>

definition generate_step ::
  "table \<Rightarrow> pitch list list \<Rightarrow> nat \<Rightarrow> track_type \<Rightarrow> int \<Rightarrow> int \<Rightarrow> gen \<Rightarrow> gen \<times> error option" where
  "generate_step transitions initial_states k tt min_velocity max_velocity g =
     (case map_of transitions (current_state g) of
        None \<Rightarrow>
          (case draw (gen_world g) of (r, w) \<Rightarrow>
             (g\<lparr>current_state := choice initial_states r, gen_world := w\<rparr>, None))
      | Some next_note_options \<Rightarrow>
          if next_note_options = [] then
            (case draw (gen_world g) of (r, w) \<Rightarrow>
               (g\<lparr>current_state := choice initial_states r, gen_world := w\<rparr>, None))
          else if sum_list (map snd next_note_options) \<le> 0 then (g, Some ValueError)
          else
            case draw (gen_world g) of (r1, w1) \<Rightarrow>
            case draw w1 of (r2, w2) \<Rightarrow>
            if max_velocity < min_velocity then (g\<lparr>gen_world := w2\<rparr>, Some ValueError)
            else
              case draw w2 of (r3, w3) \<Rightarrow>
              let next_note = choice (map fst next_note_options) r1;
                  note_duration = choice note_durations r2;
                  velocity = min_velocity + int (r3 mod nat (max_velocity - min_velocity + 1));
                  ch = (if tt = Melody then 0 else 1);
                  g1 = g\<lparr>channel := Some ch, gen_world := w3,
                         out_track := out_track g @ [NoteOn next_note velocity note_duration ch]\<rparr>
              in if generated_notes g = [] then (g1, Some IndexError)
                 else
                   let g2 = g1\<lparr>out_track := out_track g1 @
                                  [NoteOff (last (generated_notes g)) velocity 0 ch],
                                generated_notes := generated_notes g @ [next_note]\<rparr>
                   in (g2\<lparr>current_state := last_notes k (generated_notes g2)\<rparr>, None))"

fun generate_loop ::
  "table \<Rightarrow> pitch list list \<Rightarrow> nat \<Rightarrow> track_type \<Rightarrow> int \<Rightarrow> int \<Rightarrow> nat \<Rightarrow> gen \<Rightarrow> gen \<times> error option" where
  "generate_loop transitions initial_states k tt lo hi 0 g = (g, None)"
| "generate_loop transitions initial_states k tt lo hi (Suc n) g =
     (case generate_step transitions initial_states k tt lo hi g of
        (g', Some e) \<Rightarrow> (g', Some e)
      | (g', None) \<Rightarrow> generate_loop transitions initial_states k tt lo hi n g')"

text \<open>
  The arguments of the final \<open>mido.Message\<close> are evaluated left to right:
  \<open>generated_notes[-1]\<close> first, then \<open>channel\<close>, which is bound only by an iteration of
  the loop that emits a note.
\<close>

definition generate_track ::
  "composer \<Rightarrow> track \<Rightarrow> track_type \<Rightarrow> int \<Rightarrow> int \<Rightarrow> int \<Rightarrow> world \<Rightarrow> (track \<times> world) \<times> error option" where
  "generate_track c track tt len min_velocity max_velocity w =
     (case get_transitions c tt of
        None \<Rightarrow> ((track, w), Some KeyError)
      | Some transitions \<Rightarrow>
          let initial_states = map fst transitions in
          if initial_states = [] then ((track, w), None)
          else
            case draw w of (r, w') \<Rightarrow>
            let st = choice initial_states r;
                g0 = \<lparr>current_state = st, generated_notes = st, out_track = track,
                      channel = None, gen_world = w'\<rparr>
            in case generate_loop transitions initial_states (order c) tt
                      min_velocity max_velocity (nat len) g0 of
                 (g, Some e) \<Rightarrow> ((out_track g, gen_world g), Some e)
               | (g, None) \<Rightarrow>
                   if generated_notes g = [] then ((out_track g, gen_world g), Some IndexError)
                   else case channel g of
                          None \<Rightarrow> ((out_track g, gen_world g), Some UnboundLocalError)
                        | Some ch \<Rightarrow>
                            ((out_track g @ [NoteOff (last (generated_notes g)) 0 0 ch],
                              gen_world g), None))"

subsection \<open>\<open>generate_music\<close>\<close>

text \<open>
  One of the two blocks \<open>if self.transitions[...]: self._generate_track(...) else: print(...)\<close>,
  on the table of the voice.
\<close>

definition generate_voice ::
  "composer \<Rightarrow> table \<Rightarrow> track \<Rightarrow> track_type \<Rightarrow> int \<Rightarrow> int \<Rightarrow> int \<Rightarrow> world
     \<Rightarrow> (track \<times> world) \<times> error option" where
  "generate_voice c transitions track tt len min_velocity max_velocity w =
     (if transitions \<noteq> [] then generate_track c track tt len min_velocity max_velocity w
      else ((track, print (SkippingGeneration tt) w), None))"

text \<open>
  \<open>mido.bpm2tempo\<close> belongs to the library and is a parameter here: \<open>None\<close> when it,
  or the \<open>set_tempo\<close> message built from its result, raises. \<open>output_midi.save\<close> is
  taken to succeed; the world keeps, under the path, the container as the composer
  hands it over, the list of its two tracks. What the library's writer adds to the bytes
  of each track (the \<open>end_of_track\<close> marker) is outside the model.
\<close>

definition generate_music ::
  "(int \<Rightarrow> int option) \<Rightarrow> composer \<Rightarrow> int \<Rightarrow> string \<Rightarrow> int \<Rightarrow> world \<Rightarrow> world \<times> error option" where
  "generate_music bpm2tempo c len output_path tempo w =
     (if melody c = [] \<and> bass c = [] then (print NoModelsTrained w, None)
      else
        case bpm2tempo tempo of
          None \<Rightarrow> (w, Some LibraryError)
        | Some t \<Rightarrow>
            case generate_voice c (melody c) [SetTempo t, ProgramChange 73 0] Melody len 30 60 w of
              ((melody_track, w1), Some e) \<Rightarrow> (w1, Some e)
            | ((melody_track, w1), None) \<Rightarrow>
                case generate_voice c (bass c) [SetTempo t, ProgramChange 33 1] Bass len 40 80 w1 of
                  ((bass_track, w2), Some e) \<Rightarrow> (w2, Some e)
                | ((bass_track, w2), None) \<Rightarrow>
                    (print (GeneratedSuccessfully output_path)
                       (w2\<lparr>files := (files w2)(output_path \<mapsto> [melody_track, bass_track])\<rparr>),
                     None))"

section \<open>Notions the properties are stated with\<close>

subsection \<open>Invariants of a transition table\<close>

text \<open>
  \<open>positive\<close>: every state has a successor and every stored value is positive (raw
  counts, and probabilities). \<open>table_ok\<close>: every state has a successor and its values sum
  to one.
\<close>

definition positive :: "table \<Rightarrow> bool" where
  "positive t = (\<forall>(s, d) \<in> set t. d \<noteq> [] \<and> (\<forall>(n, v) \<in> set d. 0 < v))"

definition table_ok :: "table \<Rightarrow> bool" where
  "table_ok t = (\<forall>(s, d) \<in> set t. d \<noteq> [] \<and> sum_list (map snd d) = 1)"

definition good :: "table \<Rightarrow> bool" where
  "good t \<longleftrightarrow> positive t \<and> table_ok t"

subsection \<open>The classification rule as the specification words it\<close>

text \<open>
  The percussion flag (a program change on channel 9 or with program 112 or more), the
  pitches of the note-on events with positive velocity, their mean, and the rule of
  section 4.1 on them.
\<close>

fun percussion_change :: "msg \<Rightarrow> bool" where
  "percussion_change (ProgramChange program c) = (c = 9 \<or> program \<ge> 112)"
| "percussion_change _ = False"

fun sounding_pitch :: "msg \<Rightarrow> pitch list" where
  "sounding_pitch (NoteOn note velocity time c) = (if velocity > 0 then [note] else [])"
| "sounding_pitch _ = []"

definition pitches :: "track \<Rightarrow> pitch list" where
  "pitches track = concat (map sounding_pitch track)"

definition mean :: "pitch list \<Rightarrow> rat" where
  "mean ps = of_int (sum_list ps) / of_nat (length ps)"

definition classify_rule :: "track \<Rightarrow> track_type" where
  "classify_rule track =
     (let ps = pitches track in
      if ps = [] \<or> list_ex percussion_change track then Other
      else if mean ps < 48 \<and> Max (set ps) - Min (set ps) < 24 \<and> length ps > 10 then Bass
      else if mean ps \<ge> 60 \<and> Max (set ps) - Min (set ps) > 12 \<and> length ps > 20 then Melody
      else Other)"

text \<open>The pitches of a track are MIDI note numbers.\<close>

definition midi_pitches :: "track \<Rightarrow> bool" where
  "midi_pitches track \<longleftrightarrow> (\<forall>n \<in> set (pitches track). 0 \<le> n \<and> n \<le> 127)"

subsection \<open>Generated events\<close>

text \<open>The channel of a voice, and the note events on a channel.\<close>

definition voice_channel :: "track_type \<Rightarrow> int" where
  "voice_channel tt = (if tt = Melody then 0 else 1)"

fun on_channel :: "int \<Rightarrow> msg \<Rightarrow> bool" where
  "on_channel ch (NoteOn note velocity time c) = (c = ch)"
| "on_channel ch (NoteOff note velocity time c) = (c = ch)"
| "on_channel ch _ = False"

fun is_note_on :: "msg \<Rightarrow> bool" where
  "is_note_on (NoteOn _ _ _ _) = True"
| "is_note_on _ = False"

definition emitted :: "track_type \<Rightarrow> nat \<Rightarrow> gen \<Rightarrow> gen \<Rightarrow> bool" where
  "emitted tt n g g' \<longleftrightarrow>
     (\<exists>evs. out_track g' = out_track g @ evs
        \<and> list_all (on_channel (voice_channel tt)) evs
        \<and> length (filter is_note_on evs) \<le> n)
     \<and> (channel g' = channel g \<or> channel g' = Some (voice_channel tt))"

text \<open>
  What the final note-off relies on: some pitch has been generated, and once \<open>channel\<close>
  is bound the last note-on of the track carries the last generated pitch.
\<close>

definition closing :: "gen \<Rightarrow> bool" where
  "closing g \<longleftrightarrow> generated_notes g \<noteq> []
     \<and> (channel g \<noteq> None \<longrightarrow>
          extract_notes_from_track (out_track g) \<noteq> []
          \<and> last (extract_notes_from_track (out_track g)) = last (generated_notes g))"

text \<open>
  The event stream of section 4.4 for one voice. \<open>sounded\<close>: a note-on whose velocity is
  in the range of the voice and whose time is one of the five durations, followed by the
  note-off of the previous pitch with the same velocity and time 0, both on the channel;
  the result is the pitch now sounding. \<open>note_pairs\<close>: a sequence of such pairs, each
  closing the pitch the one before it opened. \<open>voice_events\<close>: at least one pair, then
  the note-off of velocity 0 for the last pitch.
\<close>

fun sounded :: "int \<Rightarrow> int \<Rightarrow> int \<Rightarrow> pitch \<Rightarrow> msg \<Rightarrow> msg \<Rightarrow> pitch option" where
  "sounded ch lo hi prev (NoteOn p v d c) (NoteOff q v' d' c') =
     (if c = ch \<and> c' = ch \<and> q = prev \<and> v' = v \<and> d' = 0 \<and> lo \<le> v \<and> v \<le> hi
         \<and> d \<in> set note_durations
      then Some p else None)"
| "sounded ch lo hi prev _ _ = None"

fun note_pairs :: "int \<Rightarrow> int \<Rightarrow> int \<Rightarrow> pitch \<Rightarrow> msg list \<Rightarrow> pitch option" where
  "note_pairs ch lo hi prev [] = Some prev"
| "note_pairs ch lo hi prev [m] = None"
| "note_pairs ch lo hi prev (m1 # m2 # evs) =
     (case sounded ch lo hi prev m1 m2 of
        None \<Rightarrow> None
      | Some p \<Rightarrow> note_pairs ch lo hi p evs)"

definition voice_events :: "int \<Rightarrow> int \<Rightarrow> int \<Rightarrow> pitch \<Rightarrow> msg list \<Rightarrow> bool" where
  "voice_events ch lo hi prev evs \<longleftrightarrow>
     (case note_pairs ch lo hi prev (butlast evs) of
        None \<Rightarrow> False
      | Some p \<Rightarrow> butlast evs \<noteq> [] \<and> evs = butlast evs @ [NoteOff p 0 0 ch])"

text \<open>
  The invariant of the generation loop on the events appended so far to the track
  \<open>tr\<close>, \<open>p0\<close> being the last pitch of the initial state.
\<close>

definition chain :: "track_type \<Rightarrow> int \<Rightarrow> int \<Rightarrow> track \<Rightarrow> pitch \<Rightarrow> gen \<Rightarrow> bool" where
  "chain tt lo hi tr p0 g \<longleftrightarrow>
     (\<exists>evs. out_track g = tr @ evs
        \<and> (if generated_notes g = [] then evs = [] \<and> channel g = None
            else note_pairs (voice_channel tt) lo hi p0 evs = Some (last (generated_notes g))
                 \<and> (channel g \<noteq> None \<longrightarrow> evs \<noteq> [])))"

subsection \<open>Example data\<close>

text \<open>Two melody tracks of 22 notes each, and a world with one file for each.\<close>

definition riff :: "track" where
  "riff = map (\<lambda>n. NoteOn n 64 0 0) (concat (replicate 11 [60, 75]))"

definition riff2 :: "track" where
  "riff2 = map (\<lambda>n. NoteOn n 64 0 0) (concat (replicate 11 [62, 76]))"

definition studio :: world where
  "studio = \<lparr>stdout = [], files = [''a.mid'' \<mapsto> [riff], ''b.mid'' \<mapsto> [riff2]], entropy = []\<rparr>"

text \<open>The table of the three-note cycle 60, 62, 64 at order 2, and a world with no files.\<close>

definition cycle_table :: table where
  "cycle_table = [([60, 62], [(64, 1)]), ([62, 64], [(60, 1)]), ([64, 60], [(62, 1)])]"

definition silence :: world where
  "silence = \<lparr>stdout = [], files = Map.empty, entropy = []\<rparr>"

text \<open>
  The pitch sequence 60, 62, 64 repeated 30 times, and what continuing the cycle after a
  pitch means: the next \<open>n\<close> pitches in the order 60, 62, 64, 60, ...
\<close>

definition cycle_notes :: "pitch list" where
  "cycle_notes = concat (replicate 30 [60, 62, 64])"

fun next_in_cycle :: "pitch \<Rightarrow> pitch" where
  "next_in_cycle p = (if p = 60 then 62 else if p = 62 then 64 else 60)"

fun cycle_after :: "pitch \<Rightarrow> nat \<Rightarrow> pitch list" where
  "cycle_after p 0 = []"
| "cycle_after p (Suc n) = next_in_cycle p # cycle_after (next_in_cycle p) n"

text \<open>A stand-in for \<open>mido.bpm2tempo\<close>: microseconds per beat, raising at 0.\<close>

definition tempo_of :: "int \<Rightarrow> int option" where
  "tempo_of bpm = (if bpm = 0 then None else Some (60000000 div bpm))"

text \<open>A bass line of 15 notes on 36..46 and a tune of 30 notes on 64..84.\<close>

definition bass_line :: track where
  "bass_line = map (\<lambda>n. NoteOn n 80 0 1) ([36, 46] @ replicate 13 40)"

definition tune :: track where
  "tune = ProgramChange 73 0 # map (\<lambda>n. NoteOn n 80 0 0) ([64, 84] @ replicate 28 72)"

text \<open>
  A bass table with three states, a composer with both tables, and a world whose random
  source yields 1, 2, 3, ...
\<close>

definition bass_table :: table where
  "bass_table = [([36, 38], [(40, 1)]), ([38, 40], [(36, 1)]), ([40, 36], [(38, 1)])]"

definition duet :: composer where
  "duet = \<lparr>order = 2, melody = cycle_table, bass = bass_table\<rparr>"

definition session :: world where
  "session = \<lparr>stdout = [], files = Map.empty,
     entropy = [1, 2, 3, 4, 5, 6, 7, 8, 9, 10, 11, 12, 13, 14, 15, 16, 17, 18, 19, 20]\<rparr>"

subsection \<open>Counting over several files\<close>

text \<open>
  The transitions the first loop of \<open>_build_transitions\<close> counts, in the order it meets
  them: each state with the pitch that follows it. \<open>first_window\<close> is the one at index 0.
\<close>

definition windows :: "nat \<Rightarrow> pitch list \<Rightarrow> (pitch list \<times> pitch) list" where
  "windows k ns = map (\<lambda>i. (take k (drop i ns), ns ! (i + k))) [0..<length ns - k]"

definition first_window :: "nat \<Rightarrow> pitch list \<Rightarrow> (pitch list \<times> pitch) list" where
  "first_window k ns = (if k < length ns then [(take k ns, ns ! k)] else [])"

text \<open>
  The specification's two readings of training on several per-file sequences of one
  voice: accumulating the raw counts file by file and normalising once at the end, and
  what \<open>train\<close> does, building from the concatenation (on a new composer).
\<close>

definition per_file_table :: "nat \<Rightarrow> pitch list list \<Rightarrow> table" where
  "per_file_table k seqs = fst (normalize_transitions (fold (count_transitions k) seqs []))"

definition concat_table :: "nat \<Rightarrow> pitch list list \<Rightarrow> table" where
  "concat_table k seqs =
     melody (fst (fst (build_transitions (concat seqs) Melody (MarkovComposer k, silence))))"

text \<open>
  The sequences whose transitions the concatenation counts: before each file, the last
  \<open>k\<close> pitches of all that precedes it followed by its first \<open>k\<close> pitches, whose
  windows are those that span the boundary.
\<close>

fun with_boundaries :: "nat \<Rightarrow> pitch list \<Rightarrow> pitch list list \<Rightarrow> pitch list list" where
  "with_boundaries k pre [] = []"
| "with_boundaries k pre (ys # yss) =
     (drop (length pre - k) pre @ take k ys) # ys # with_boundaries k (pre @ ys) yss"

section \<open>Properties\<close>

subsection \<open>The classifier\<close>

lemma scan_fold:
  "fold scan_msg track s =
     \<lparr>notes_in_track = notes_in_track s @ pitches track,
      min_pitch = fold min (pitches track) (min_pitch s),
      max_pitch = fold max (pitches track) (max_pitch s),
      is_percussion_channel = (is_percussion_channel s \<or> list_ex percussion_change track)\<rparr>"
proof (induction track arbitrary: s)
  case Nil
  then show ?case by (simp add: pitches_def)
next
  case (Cons m track)
  show ?case
  proof (cases m)
    case (NoteOn p v d c)
    then show ?thesis
      by (cases "v > 0") (auto simp: Cons.IH pitches_def min_def max_def)
  next
    case (ProgramChange program c)
    then show ?thesis by (auto simp: Cons.IH pitches_def)
  qed (simp_all add: Cons.IH pitches_def)
qed

lemma fold_min_Min:
  assumes "ps \<noteq> []" "\<forall>n \<in> set ps. n \<le> (m0::int)"
  shows "fold min ps m0 = Min (set ps)"
proof -
  have "fold min ps m0 = Min (set (m0 # ps))" by (rule Min.set_eq_fold [symmetric])
  also have "\<dots> = min m0 (Min (set ps))" using assms(1) by simp
  also have "\<dots> = Min (set ps)"
  proof -
    have "Min (set ps) \<in> set ps" using assms(1) by (intro Min_in) simp_all
    with assms(2) have "Min (set ps) \<le> m0" by blast
    then show ?thesis by (rule min_absorb2)
  qed
  finally show ?thesis .
qed

lemma fold_max_Max:
  assumes "ps \<noteq> []" "\<forall>n \<in> set ps. (m0::int) \<le> n"
  shows "fold max ps m0 = Max (set ps)"
proof -
  have "fold max ps m0 = Max (set (m0 # ps))" by (rule Max.set_eq_fold [symmetric])
  also have "\<dots> = max m0 (Max (set ps))" using assms(1) by simp
  also have "\<dots> = Max (set ps)"
  proof -
    have "Max (set ps) \<in> set ps" using assms(1) by (intro Max_in) simp_all
    with assms(2) have "m0 \<le> Max (set ps)" by blast
    then show ?thesis by (rule max_absorb2)
  qed
  finally show ?thesis .
qed

lemma classify_track_rule:
  assumes "midi_pitches track"
  shows "classify_track track = classify_rule track"
proof (cases "pitches track = []")
  case True
  then show ?thesis
    by (simp add: classify_track_def classify_rule_def scan_fold scan_init_def)
next
  case False
  from assms have "\<forall>n \<in> set (pitches track). n \<le> 128" "\<forall>n \<in> set (pitches track). -1 \<le> n"
    by (auto simp: midi_pitches_def)
  with False have "fold min (pitches track) 128 = Min (set (pitches track))"
    "fold max (pitches track) (-1) = Max (set (pitches track))"
    by (simp_all add: fold_min_Min fold_max_Max)
  with False show ?thesis
    by (simp add: classify_track_def classify_rule_def scan_fold scan_init_def mean_def Let_def)
qed

lemma pitches_extract: "pitches track = extract_notes_from_track track"
  by (induction track rule: extract_notes_from_track.induct) (simp_all add: pitches_def)

lemma sum_list_bounds:
  assumes "\<forall>n \<in> set ps. lo \<le> n \<and> n \<le> (hi::int)"
  shows "lo * int (length ps) \<le> sum_list ps \<and> sum_list ps \<le> hi * int (length ps)"
  using assms by (induction ps) (auto simp: algebra_simps)

lemma range_bounds:
  assumes "ps \<noteq> []" "\<forall>n \<in> set ps. lo \<le> n \<and> n \<le> (hi::int)"
  shows "Max (set ps) - Min (set ps) \<le> hi - lo"
proof -
  have "Max (set ps) \<in> set ps" "Min (set ps) \<in> set ps"
    using assms(1) by (auto intro!: Max_in Min_in)
  with assms(2) have "Max (set ps) \<le> hi" "lo \<le> Min (set ps)" by blast+
  then show ?thesis by simp
qed

lemma classify_bass:
  assumes "\<not> list_ex percussion_change track"
    and "\<forall>n \<in> set (extract_notes_from_track track). 36 \<le> n \<and> n \<le> 47"
    and "length (extract_notes_from_track track) = 15"
  shows "classify_track track = Bass"
proof -
  let ?ps = "pitches track"
  have ps: "\<forall>n \<in> set ?ps. 36 \<le> n \<and> n \<le> 47" "length ?ps = 15"
    using assms by (simp_all add: pitches_extract)
  then have ne: "?ps \<noteq> []" by auto
  have "midi_pitches track" using ps(1) by (auto simp: midi_pitches_def)
  then have eq: "classify_track track = classify_rule track" by (rule classify_track_rule)
  from sum_list_bounds [OF ps(1)] ps(2) have "sum_list ?ps \<le> 705" by simp
  then have "(of_int (sum_list ?ps) :: rat) \<le> 705" by (metis of_int_le_iff of_int_numeral)
  then have m: "mean ?ps < 48" using ps(2) by (simp add: mean_def)
  from range_bounds [OF ne ps(1)] have r: "Max (set ?ps) - Min (set ?ps) < 24" by simp
  show ?thesis using assms(1) ne m r ps(2) by (simp add: eq classify_rule_def)
qed

lemma classify_melody:
  assumes "\<not> list_ex percussion_change track"
    and "\<forall>n \<in> set (extract_notes_from_track track). 64 \<le> n \<and> n \<le> 84"
    and "Max (set (extract_notes_from_track track)) - Min (set (extract_notes_from_track track)) = 20"
    and "length (extract_notes_from_track track) = 30"
  shows "classify_track track = Melody"
proof -
  let ?ps = "pitches track"
  have ps: "\<forall>n \<in> set ?ps. 64 \<le> n \<and> n \<le> 84" "length ?ps = 30"
    and r: "Max (set ?ps) - Min (set ?ps) = 20"
    using assms by (simp_all add: pitches_extract)
  then have ne: "?ps \<noteq> []" by auto
  have "midi_pitches track" using ps(1) by (auto simp: midi_pitches_def)
  then have eq: "classify_track track = classify_rule track" by (rule classify_track_rule)
  from sum_list_bounds [OF ps(1)] ps(2) have "1920 \<le> sum_list ?ps" by simp
  then have "(1920 :: rat) \<le> of_int (sum_list ?ps)" by (metis of_int_le_iff of_int_numeral)
  then have m: "mean ?ps \<ge> 60" "\<not> mean ?ps < 48" using ps(2) by (simp_all add: mean_def)
  show ?thesis using assms(1) ne m r ps(2) by (simp add: eq classify_rule_def)
qed

text \<open>
  Claim C2. \<open>_classify_track\<close> is a function of the track's events, and on a track whose
  pitches are MIDI note numbers it is the rule of the specification: 'other' when there
  is no note-on of positive velocity or a program change uses channel 9 or a program of
  112 or more; else 'bass' when the mean pitch is below 48, the range below 24 and the
  count above 10; else 'melody' when the mean is at least 60, the range above 12 and the
  count above 20; else 'other'. A track without percussion whose 15 pitches lie in
  36..47 is 'bass', and one whose 30 pitches lie in 64..84 with range 20 is 'melody'.
\<close>

theorem classify_track_correct:
  "(midi_pitches track \<longrightarrow> classify_track track = classify_rule track)
   \<and> (\<not> list_ex percussion_change track
        \<and> (\<forall>n \<in> set (extract_notes_from_track track). 36 \<le> n \<and> n \<le> 47)
        \<and> length (extract_notes_from_track track) = 15
      \<longrightarrow> classify_track track = Bass)
   \<and> (\<not> list_ex percussion_change track
        \<and> (\<forall>n \<in> set (extract_notes_from_track track). 64 \<le> n \<and> n \<le> 84)
        \<and> Max (set (extract_notes_from_track track))
            - Min (set (extract_notes_from_track track)) = 20
        \<and> length (extract_notes_from_track track) = 30
      \<longrightarrow> classify_track track = Melody)"
  using classify_track_rule classify_bass classify_melody by blast

lemma bass_line_facts:
  "midi_pitches bass_line" "\<not> list_ex percussion_change bass_line"
  "\<forall>n \<in> set (extract_notes_from_track bass_line). 36 \<le> n \<and> n \<le> 47"
  "length (extract_notes_from_track bass_line) = 15"
  by code_simp+

lemma tune_facts:
  "midi_pitches tune" "\<not> list_ex percussion_change tune"
  "\<forall>n \<in> set (extract_notes_from_track tune). 64 \<le> n \<and> n \<le> 84"
  "Max (set (extract_notes_from_track tune)) - Min (set (extract_notes_from_track tune)) = 20"
  "length (extract_notes_from_track tune) = 30"
  by code_simp+

theorem classify_track_correct_witness:
  "midi_pitches bass_line \<and> classify_track bass_line = classify_rule bass_line
   \<and> classify_track bass_line = Bass \<and> classify_track tune = Melody"
  using classify_track_correct [of bass_line] classify_track_correct [of tune]
    bass_line_facts tune_facts
  by blast

subsection \<open>The tables that training leaves\<close>

lemma count_next_pos:
  "(\<forall>(n, v) \<in> set d. 0 < v) \<Longrightarrow> (\<forall>(n, v) \<in> set (count_next x d). 0 < v)"
  by (induction d) (auto split: if_splits)

lemma count_next_nonempty: "count_next x d \<noteq> []"
  by (cases d) (auto split: if_splits)

lemma count_transition_positive: "positive t \<Longrightarrow> positive (count_transition s n t)"
proof (induction t)
  case Nil
  then show ?case by (simp add: positive_def)
next
  case (Cons p t)
  obtain k d where p: "p = (k, d)" by (cases p)
  from Cons.prems have d: "\<forall>(n, v) \<in> set d. 0 < v" and t: "positive t"
    by (auto simp: positive_def p)
  from count_next_pos [OF d] have "\<forall>(m, v) \<in> set (count_next n d). 0 < v" .
  with Cons.IH [OF t] Cons.prems show ?case
    by (auto simp: positive_def p count_next_nonempty)
qed

lemma fold_invariant:
  "P a \<Longrightarrow> (\<And>x b. P b \<Longrightarrow> P (f x b)) \<Longrightarrow> P (fold f xs a)"
  by (induction xs arbitrary: a) auto

lemma count_transitions_positive: "positive t \<Longrightarrow> positive (count_transitions k notes t)"
  unfolding count_transitions_def by (rule fold_invariant) (auto intro: count_transition_positive)

lemma sum_list_pos_dist:
  "d \<noteq> [] \<Longrightarrow> (\<forall>(n, v) \<in> set d. (0::rat) < v) \<Longrightarrow> 0 < sum_list (map snd d)"
proof (induction d)
  case Nil
  then show ?case by simp
next
  case (Cons p d)
  show ?case
  proof (cases "d = []")
    case True
    with Cons.prems show ?thesis by auto
  next
    case False
    with Cons have "0 < sum_list (map snd d)" by auto
    moreover from Cons.prems have "0 < snd p" by auto
    ultimately show ?thesis by simp
  qed
qed

lemma sum_normalize_dist:
  "sum_list (map snd (normalize_dist d)) = sum_list (map snd d) / sum_list (map snd d)"
proof -
  have "sum_list (map snd (map (\<lambda>(n, c). (n, c / T)) d)) = sum_list (map snd d) / T" for T :: rat
    by (induction d) (auto simp: add_divide_distrib)
  then show ?thesis by (simp add: normalize_dist_def Let_def)
qed

lemma normalize_dist_pos:
  assumes "d \<noteq> []" "\<forall>(n, v) \<in> set d. 0 < v"
  shows "\<forall>(n, v) \<in> set (normalize_dist d). 0 < v"
  using sum_list_pos_dist [OF assms] assms(2)
  by (auto simp: normalize_dist_def Let_def)

lemma normalize_dist_nonempty: "normalize_dist d = [] \<longleftrightarrow> d = []"
  by (simp add: normalize_dist_def Let_def)

lemma normalize_positive:
  "positive t \<Longrightarrow>
     snd (normalize_transitions t) = None \<and> table_ok (fst (normalize_transitions t)) \<and> positive (fst (normalize_transitions t))
     \<and> map fst (fst (normalize_transitions t)) = map fst t"
proof (induction t)
  case Nil
  then show ?case by (simp add: table_ok_def positive_def)
next
  case (Cons p t)
  obtain s d where p: "p = (s, d)" by (cases p)
  from Cons.prems have d: "d \<noteq> []" "\<forall>(n, v) \<in> set d. 0 < v" and t: "positive t"
    by (auto simp: positive_def p)
  have pos: "0 < sum_list (map snd d)" by (rule sum_list_pos_dist [OF d])
  then have one: "sum_list (map snd (normalize_dist d)) = 1"
    by (simp add: sum_normalize_dist)
  obtain t' e where n: "normalize_transitions t = (t', e)" by (cases "normalize_transitions t")
  with Cons.IH [OF t] have ih: "e = None" "table_ok t'" "positive t'" "map fst t' = map fst t" by auto
  have "normalize_transitions (p # t) = ((s, normalize_dist d) # t', None)"
    using pos n ih(1) by (simp add: p)
  then show ?case
    using ih one d normalize_dist_pos [OF d]
    by (simp add: table_ok_def positive_def normalize_dist_nonempty p)
qed

lemma good_Nil: "good []"
  by (simp add: good_def positive_def table_ok_def)

lemma build_transitions_good:
  assumes "good (melody c)" "good (bass c)" "tt \<noteq> Other"
  shows "\<exists>c' w'. build_transitions ns tt (c, w) = ((c', w'), None)
           \<and> good (melody c') \<and> good (bass c') \<and> order c' = order c"
proof (cases tt)
  case Melody
  have "positive (count_transitions (order c) ns (melody c))"
    using assms(1) by (simp add: good_def count_transitions_positive)
  from normalize_positive [OF this] show ?thesis
    using assms Melody by (auto simp: build_transitions_def good_def split: prod.splits)
next
  case Bass
  have "positive (count_transitions (order c) ns (bass c))"
    using assms(2) by (simp add: good_def count_transitions_positive)
  from normalize_positive [OF this] show ?thesis
    using assms Bass by (auto simp: build_transitions_def good_def split: prod.splits)
next
  case Other
  with assms show ?thesis by simp
qed

lemma train_voice_good:
  assumes "good (melody c)" "good (bass c)" "tt \<noteq> Other"
  shows "\<exists>c' w'. train_voice ns tt (c, w) = ((c', w'), None)
           \<and> good (melody c') \<and> good (bass c') \<and> order c' = order c"
proof (cases "ns = []")
  case True
  with assms show ?thesis by (simp add: train_voice_def)
next
  case False
  with build_transitions_good [OF assms, where ns = ns
      and w = "print (TrainingChain tt (length ns)) w"]
  show ?thesis by (simp add: train_voice_def)
qed

lemma train_good:
  assumes "good (melody c)" "good (bass c)"
  shows "\<exists>c' w'. train midi_files (c, w) = ((c', w'), None)
           \<and> good (melody c') \<and> good (bass c') \<and> order c' = order c"
proof -
  obtain mn bn w1 where tf: "train_files midi_files (([], []), w) = ((mn, bn), w1)"
    by (metis prod.exhaust)
  define w3 where "w3 = report_missing bn Bass (report_missing mn Melody w1)"
  from train_voice_good [OF assms, where tt = Melody and ns = mn and w = w3]
  obtain c1 w4 where r1: "train_voice mn Melody (c, w3) = ((c1, w4), None)"
    and c1: "good (melody c1)" "good (bass c1)" "order c1 = order c" by auto
  have tr: "train midi_files (c, w) = train_voice bn Bass (c1, w4)"
    using r1 by (simp add: train_def tf Let_def w3_def)
  from train_voice_good [OF c1(1,2), where tt = Bass and ns = bn and w = w4] c1(3) show ?thesis
    by (simp add: tr)
qed

text \<open>
  Claim C1. A call of \<open>train\<close> on a newly constructed composer raises nothing, and in
  both tables it leaves (melody and bass) every state has a non-empty successor
  distribution whose probabilities sum to 1. The quotients are exact rationals here, so
  the sum is exactly 1.
\<close>

theorem train_tables_ok:
  "\<exists>c' w'. train midi_files (MarkovComposer k, w) = ((c', w'), None)
     \<and> table_ok (melody c') \<and> table_ok (bass c')"
proof -
  have "good (melody (MarkovComposer k))" "good (bass (MarkovComposer k))"
    by (simp_all add: MarkovComposer_def good_Nil)
  from train_good [OF this, where midi_files = midi_files and w = w] show ?thesis
    by (auto simp: good_def)
qed

text \<open>The theorem at a corpus of one file, after which the melody table has two states.\<close>

lemma train_riff:
  "melody (fst (fst (train [''a.mid''] (MarkovComposer 2, studio)))) =
     [([60, 75], [(60, 1)]), ([75, 60], [(75, 1)])]"
  by code_simp

theorem train_tables_ok_witness:
  "\<exists>c' w'. train [''a.mid''] (MarkovComposer 2, studio) = ((c', w'), None)
     \<and> melody c' = [([60, 75], [(60, 1)]), ([75, 60], [(75, 1)])]
     \<and> table_ok (melody c') \<and> table_ok (bass c')"
  using train_tables_ok [of "[''a.mid'']" 2 studio] train_riff by auto

text \<open>
  Claim C5. For a pitch sequence shorter than \<open>order + 1\<close>, \<open>_build_transitions\<close> on
  the melody or the bass voice raises nothing, leaves the composer as it is and only
  prints the diagnostic; a table that is empty before the call, as that of a new
  composer is, is empty after it.
\<close>

theorem build_transitions_short:
  assumes "length ns < order c + 1" and "tt \<noteq> Other"
  shows "build_transitions ns tt (c, w) =
           ((c, print (NotEnoughNotes (length ns) (order c) tt) w), None)
         \<and> (get_transitions c tt = Some [] \<longrightarrow>
              get_transitions (fst (fst (build_transitions ns tt (c, w)))) tt = Some [])"
  using assms by (cases tt) (simp_all add: build_transitions_def)

theorem build_transitions_short_witness:
  "build_transitions [60, 62] Melody (MarkovComposer 2, silence) =
     ((MarkovComposer 2, print (NotEnoughNotes (length [60, 62 :: pitch]) 2 Melody) silence), None)
   \<and> get_transitions (fst (fst (build_transitions [60, 62] Melody (MarkovComposer 2, silence))))
        Melody = Some []"
  using build_transitions_short [of "[60, 62]" "MarkovComposer 2" Melody silence]
  by (simp add: MarkovComposer_def)

subsection \<open>Several files\<close>

lemma count_transitions_windows:
  "count_transitions k ns t = fold (\<lambda>(s, n). count_transition s n) (windows k ns) t"
  by (simp add: count_transitions_def windows_def fold_map comp_def)

lemma windows_short: "length ns \<le> k \<Longrightarrow> windows k ns = []"
  by (simp add: windows_def)

lemma windows_Cons: "windows k (x # xs) = first_window k (x # xs) @ windows k xs"
proof (cases "k \<le> length xs")
  case True
  then have "[0..<length (x # xs) - k] = 0 # map Suc [0..<length xs - k]"
    by (simp add: Suc_diff_le upt_conv_Cons map_Suc_upt del: upt_Suc)
  then show ?thesis using True by (simp add: windows_def first_window_def comp_def)
next
  case False
  then show ?thesis by (simp add: windows_def first_window_def)
qed

lemma first_window_take: "first_window k (take (Suc k) ns) = first_window k ns"
  by (auto simp: first_window_def min_def)

lemma first_window_cong:
  "take (Suc k) ms = take (Suc k) ns \<Longrightarrow> first_window k ms = first_window k ns"
  by (metis first_window_take)

lemma windows_append:
  "windows k (xs @ ys) =
     windows k xs @ windows k (drop (length xs - k) xs @ take k ys) @ windows k ys"
proof (induction xs)
  case Nil
  then show ?case by (simp add: windows_short)
next
  case (Cons x xs)
  have step: "windows k ((x # xs) @ ys) = first_window k ((x # xs) @ ys) @ windows k (xs @ ys)"
    by (simp add: windows_Cons)
  show ?case
  proof (cases "k \<le> length xs")
    case True
    then have d: "drop (length (x # xs) - k) (x # xs) = drop (length xs - k) xs"
      by (simp add: Suc_diff_le)
    have "take (Suc k) ((x # xs) @ ys) = take (Suc k) (x # xs)" using True by simp
    then have "first_window k ((x # xs) @ ys) = first_window k (x # xs)"
      by (rule first_window_cong)
    with step Cons.IH have "windows k ((x # xs) @ ys) =
        (first_window k (x # xs) @ windows k xs)
        @ windows k (drop (length xs - k) xs @ take k ys) @ windows k ys"
      by simp
    then show ?thesis by (simp only: d windows_Cons [of k x xs])
  next
    case False
    then have d: "drop (length (x # xs) - k) (x # xs) = x # xs" "drop (length xs - k) xs = xs"
      by simp_all
    have w: "windows k xs = []" "windows k (x # xs) = []"
      using False by (simp_all add: windows_short)
    have "take (Suc k) ((x # xs) @ ys) = take (Suc k) ((x # xs) @ take k ys)"
      by (simp add: min_def)
    then have "first_window k ((x # xs) @ ys) = first_window k ((x # xs) @ take k ys)"
      by (rule first_window_cong)
    with step Cons.IH have "windows k ((x # xs) @ ys) =
        (first_window k ((x # xs) @ take k ys) @ windows k (xs @ take k ys)) @ windows k ys"
      by (simp add: w d)
    also have "first_window k ((x # xs) @ take k ys) @ windows k (xs @ take k ys)
        = windows k ((x # xs) @ take k ys)"
      by (simp add: windows_Cons)
    finally show ?thesis by (simp only: w d append_Nil)
  qed
qed

lemma count_transitions_append:
  "count_transitions k (xs @ ys) t =
     count_transitions k ys
       (count_transitions k (drop (length xs - k) xs @ take k ys)
         (count_transitions k xs t))"
proof -
  have "fold (\<lambda>(s, n). count_transition s n) (windows k (xs @ ys)) t =
      fold (\<lambda>(s, n). count_transition s n)
        (windows k xs @ windows k (drop (length xs - k) xs @ take k ys) @ windows k ys) t"
    by (simp only: windows_append [of k xs ys])
  then show ?thesis by (simp add: count_transitions_windows)
qed

lemma count_transitions_prefix:
  "count_transitions k (pre @ concat seqs) t =
     fold (count_transitions k) (with_boundaries k pre seqs) (count_transitions k pre t)"
proof (induction seqs arbitrary: pre t)
  case Nil
  then show ?case by simp
next
  case (Cons ys yss)
  have "count_transitions k (pre @ concat (ys # yss)) t =
      count_transitions k ((pre @ ys) @ concat yss) t" by simp
  also have "\<dots> = fold (count_transitions k) (with_boundaries k (pre @ ys) yss)
      (count_transitions k (pre @ ys) t)" by (rule Cons.IH)
  finally show ?case by (simp add: count_transitions_append [of k pre ys])
qed

text \<open>
  Claim C8, amended. Building from the concatenation of the per-file sequences counts,
  file by file and in the order of the files, the transitions inside each file and,
  before them, the transitions that span the boundary with what precedes the file; the
  table is these counts normalised once. It has the per-file counts and the counts of the
  boundary windows, and through the latter it depends on the order of the files.
\<close>

theorem concat_counts_boundaries:
  "count_transitions k (concat seqs) t =
     fold (count_transitions k) (with_boundaries k [] seqs) t"
proof -
  have "count_transitions k [] t = t" by (simp add: count_transitions_def)
  with count_transitions_prefix [of k "[]" seqs t] show ?thesis by simp
qed

text \<open>
  Claim C8 as stated fails: for the files 60, 62, 64 and 65, 67, 69 at order 2 the table
  built from the concatenation has the state (62, 64), which spans the two files; the
  table accumulated file by file has not, nor has the table built from the files in the
  other order.
\<close>

theorem concat_not_per_file:
  "map_of (concat_table 2 [[60, 62, 64], [65, 67, 69]]) [62, 64]
     \<noteq> map_of (per_file_table 2 [[60, 62, 64], [65, 67, 69]]) [62, 64]
   \<and> map_of (concat_table 2 [[60, 62, 64], [65, 67, 69]]) [62, 64]
     \<noteq> map_of (concat_table 2 [[65, 67, 69], [60, 62, 64]]) [62, 64]"
  by code_simp

subsection \<open>Training again\<close>

lemma count_transition_keys:
  "map fst (count_transition s n t) = map fst t @ (if s \<in> fst ` set t then [] else [s])"
proof (induction t)
  case Nil
  show ?case by simp
next
  case (Cons p t)
  obtain k d where p: "p = (k, d)" by (cases p)
  show ?case using Cons.IH by (cases "k = s") (auto simp: p)
qed

lemma count_transitions_keys: "\<exists>ks. map fst (count_transitions k ns t) = map fst t @ ks"
proof -
  have "\<exists>ks. map fst (fold (\<lambda>(s, n). count_transition s n) ws t) = map fst t @ ks" for ws
  proof (induction ws arbitrary: t)
    case Nil
    then show ?case by simp
  next
    case (Cons w ws)
    obtain s n where w: "w = (s, n)" by (cases w)
    from Cons.IH [of "count_transition s n t"] show ?case
      by (auto simp: w count_transition_keys)
  qed
  then show ?thesis by (simp add: count_transitions_windows)
qed

lemma normalize_keys: "map fst (fst (normalize_transitions t)) = map fst t"
  by (induction t rule: normalize_transitions.induct) (auto simp: split: prod.splits)

lemma build_transitions_keys:
  assumes "build_transitions ns tt (c, w) = ((c', w'), e)"
  shows "(\<exists>ks. map fst (melody c') = map fst (melody c) @ ks)
         \<and> (\<exists>ks. map fst (bass c') = map fst (bass c) @ ks) \<and> order c' = order c"
proof (cases "length ns < order c + 1 \<or> tt = Other")
  case True
  with assms show ?thesis by (cases tt) (auto simp: build_transitions_def)
next
  case False
  then obtain t where t: "get_transitions c tt = Some t" by (cases tt) auto
  from count_transitions_keys [of "order c" ns t] normalize_keys
  have k: "\<exists>ks. map fst (fst (normalize_transitions (count_transitions (order c) ns t)))
      = map fst t @ ks" by simp
  from assms False t
  have c': "c' = set_transitions c tt (fst (normalize_transitions (count_transitions (order c) ns t)))"
    by (auto simp: build_transitions_def split: prod.splits)
  from False t k show ?thesis by (cases tt) (auto simp: c')
qed

lemma train_voice_keys:
  assumes "train_voice ns tt (c, w) = ((c', w'), e)"
  shows "(\<exists>ks. map fst (melody c') = map fst (melody c) @ ks)
         \<and> (\<exists>ks. map fst (bass c') = map fst (bass c) @ ks) \<and> order c' = order c"
proof (cases "ns = []")
  case True
  with assms show ?thesis by (auto simp: train_voice_def)
next
  case False
  with assms have "build_transitions ns tt (c, print (TrainingChain tt (length ns)) w)
      = ((c', w'), e)" by (simp add: train_voice_def)
  then show ?thesis by (rule build_transitions_keys)
qed

lemma train_keys:
  assumes "train midi_files (c, w) = ((c', w'), e)"
  shows "(\<exists>ks. map fst (melody c') = map fst (melody c) @ ks)
         \<and> (\<exists>ks. map fst (bass c') = map fst (bass c) @ ks) \<and> order c' = order c"
proof -
  obtain mn bn w1 where tf: "train_files midi_files (([], []), w) = ((mn, bn), w1)"
    by (metis prod.exhaust)
  define w3 where "w3 = report_missing bn Bass (report_missing mn Melody w1)"
  obtain c1 w4 e1 where r1: "train_voice mn Melody (c, w3) = ((c1, w4), e1)"
    by (metis prod.exhaust)
  note k1 = train_voice_keys [OF r1]
  show ?thesis
  proof (cases e1)
    case (Some x)
    with assms r1 have "c' = c1" by (simp add: train_def tf Let_def w3_def)
    with k1 show ?thesis by simp
  next
    case None
    with assms r1 have "train_voice bn Bass (c1, w4) = ((c', w'), e)"
      by (simp add: train_def tf Let_def w3_def)
    from train_voice_keys [OF this] k1 show ?thesis by auto
  qed
qed

text \<open>
  Claim C7, amended. Only \<open>train\<close> changes the tables, and it never clears one: after a
  call, whether it raises or not, the states each table had before the call are still
  its first states, in the same order, and the order of the composer is unchanged. So
  re-training is not a full rebuild; a call is one on a new composer when both tables
  are empty before it.
\<close>

theorem train_keeps_states:
  "(train midi_files (c, w) = ((c', w'), e) \<longrightarrow>
      (\<exists>ks. map fst (melody c') = map fst (melody c) @ ks)
      \<and> (\<exists>ks. map fst (bass c') = map fst (bass c) @ ks) \<and> order c' = order c)
   \<and> (melody c = [] \<and> bass c = [] \<longrightarrow>
      train midi_files (c, w) = train midi_files (MarkovComposer (order c), w))"
proof (intro conjI impI)
  assume "melody c = [] \<and> bass c = []"
  then have "c = MarkovComposer (order c)" by (cases c) (simp add: MarkovComposer_def)
  then show "train midi_files (c, w) = train midi_files (MarkovComposer (order c), w)" by simp
qed (auto dest: train_keys)

theorem train_keeps_states_witness:
  "melody (fst (fst (train [''a.mid''] (MarkovComposer 2, studio)))) \<noteq> []
   \<and> train [''a.mid''] (MarkovComposer 2, studio) =
       train [''a.mid''] (MarkovComposer (order (MarkovComposer 2)), studio)
   \<and> (\<exists>ks. map fst (melody (fst (fst (train [''b.mid'']
                 (fst (train [''a.mid''] (MarkovComposer 2, studio)))))))
          = map fst (melody (fst (fst (train [''a.mid''] (MarkovComposer 2, studio))))) @ ks)"
proof -
  let ?cw = "fst (train [''a.mid''] (MarkovComposer 2, studio))"
  let ?r = "train [''b.mid''] (fst ?cw, snd ?cw)"
  have "?r = ((fst (fst ?r), snd (fst ?r)), snd ?r)" by simp
  with train_keeps_states [of "[''b.mid'']" "fst ?cw" "snd ?cw" "fst (fst ?r)" "snd (fst ?r)"
      "snd ?r"]
  have 1: "\<exists>ks. map fst (melody (fst (fst ?r))) = map fst (melody (fst ?cw)) @ ks" by blast
  have "melody (MarkovComposer 2) = [] \<and> bass (MarkovComposer 2) = []"
    by (simp add: MarkovComposer_def)
  with train_keeps_states [of "[''a.mid'']" "MarkovComposer 2" studio]
  have 2: "train [''a.mid''] (MarkovComposer 2, studio) =
      train [''a.mid''] (MarkovComposer (order (MarkovComposer 2)), studio)" by blast
  from 1 2 train_riff show ?thesis by simp
qed

lemma retrain_melody:
  "melody (fst (fst (train [''b.mid''] (fst (train [''a.mid''] (MarkovComposer 2, studio)))))) =
     [([60, 75], [(60, 1)]), ([75, 60], [(75, 1)]), ([62, 76], [(62, 1)]), ([76, 62], [(76, 1)])]"
  by code_simp

lemma fresh_melody:
  "melody (fst (fst (train [''b.mid''] (MarkovComposer 2, studio)))) =
     [([62, 76], [(62, 1)]), ([76, 62], [(76, 1)])]"
  by code_simp

text \<open>
  Claim C7 as stated fails: a composer trained on \<open>a.mid\<close> and then on \<open>b.mid\<close> has a
  melody table of four states, a new composer trained on \<open>b.mid\<close> one of two.
\<close>

theorem retrain_not_rebuild:
  "melody (fst (fst (train [''b.mid''] (fst (train [''a.mid''] (MarkovComposer 2, studio))))))
     \<noteq> melody (fst (fst (train [''b.mid''] (MarkovComposer 2, studio))))"
  by (simp add: retrain_melody fresh_melody)

subsection \<open>Generating a track\<close>

text \<open>
  Claim C6. \<open>_generate_track\<close> on an empty table appends no event and raises nothing;
  \<open>generate_music\<close> on a composer whose two tables are empty prints the diagnostic,
  raises nothing and leaves the files as they are.
\<close>

theorem generate_nothing:
  "(get_transitions c tt = Some [] \<longrightarrow>
      generate_track c track tt len lo hi w = ((track, w), None))
   \<and> (melody c = [] \<and> bass c = [] \<longrightarrow>
      generate_music bpm2tempo c len output_path tempo w = (print NoModelsTrained w, None)
      \<and> files (print NoModelsTrained w) = files w)"
  by (simp add: generate_track_def generate_music_def print_def)

theorem generate_nothing_witness:
  "generate_track (MarkovComposer 2) [] Melody 50 30 60 silence = (([], silence), None)
   \<and> generate_music (\<lambda>b. Some b) (MarkovComposer 2) 50 ''generated_music.mid'' 120 silence =
       (print NoModelsTrained silence, None)
   \<and> files (print NoModelsTrained silence) = files silence"
  using generate_nothing [of "MarkovComposer 2" Melody "[]" 50 30 60 silence "\<lambda>b. Some b"
      "''generated_music.mid''" 120]
  by (simp add: MarkovComposer_def)

text \<open>
  Claim C10. On a non-empty table, \<open>_generate_track\<close> with \<open>length = 0\<close> (or less, for
  which \<open>range(length)\<close> is empty as well) appends no event and raises: the final
  note-off reads \<open>channel\<close>, which no iteration has bound (\<open>UnboundLocalError\<close>); only
  when the state drawn is the empty tuple does \<open>generated_notes[-1]\<close>, evaluated before
  it, raise \<open>IndexError\<close> first.
\<close>

theorem generate_track_zero_length:
  assumes "get_transitions c tt = Some t" and "t \<noteq> []" and "len \<le> 0"
  shows "\<exists>w'. generate_track c track tt len lo hi w =
           ((track, w'),
            Some (if choice (map fst t) (fst (draw w)) = [] then IndexError
                  else UnboundLocalError))"
  using assms by (auto simp: generate_track_def Let_def split: prod.splits)

theorem generate_track_zero_length_witness:
  "\<exists>w'. generate_track \<lparr>order = 2, melody = cycle_table, bass = []\<rparr> [] Melody 0 30 60 silence =
      (([], w'), Some UnboundLocalError)"
proof -
  have "choice (map fst cycle_table) (fst (draw silence)) \<noteq> []"
    by (simp add: cycle_table_def choice_def draw_def silence_def)
  with generate_track_zero_length [of "\<lparr>order = 2, melody = cycle_table, bass = []\<rparr>"
      Melody cycle_table 0 "[]" 30 60 silence]
  show ?thesis by (simp add: cycle_table_def)
qed

text \<open>
  Claim C3, at the input where the code departs from it: on the table of the cycle and
  \<open>length = 0\<close>, \<open>_generate_track\<close> raises \<open>UnboundLocalError\<close> and the track does not end
  with a note-off of velocity 0 (it stays empty). That at most \<open>length\<close> note-on events
  are appended is \<open>generate_track_emitted\<close>.
\<close>

theorem generate_track_no_final_note_off:
  "generate_track \<lparr>order = 2, melody = cycle_table, bass = []\<rparr> [] Melody 0 30 60 silence =
     (([], silence), Some UnboundLocalError)"
  by (simp add: generate_track_def cycle_table_def silence_def draw_def choice_def)

lemma generate_step_emitted:
  "generate_step t is k tt lo hi g = (g', e) \<Longrightarrow> emitted tt 1 g g'"
  unfolding generate_step_def emitted_def
  by (auto simp: Let_def voice_channel_def split: option.splits if_splits prod.splits)

lemma emitted_trans:
  assumes "emitted tt m g g'" "emitted tt n g' g''"
  shows "emitted tt (m + n) g g''"
proof -
  from assms(1) obtain evs where 1: "out_track g' = out_track g @ evs"
    "list_all (on_channel (voice_channel tt)) evs" "length (filter is_note_on evs) \<le> m"
    and c1: "channel g' = channel g \<or> channel g' = Some (voice_channel tt)"
    unfolding emitted_def by blast
  from assms(2) obtain evs' where 2: "out_track g'' = out_track g' @ evs'"
    "list_all (on_channel (voice_channel tt)) evs'" "length (filter is_note_on evs') \<le> n"
    and c2: "channel g'' = channel g' \<or> channel g'' = Some (voice_channel tt)"
    unfolding emitted_def by blast
  have "out_track g'' = out_track g @ (evs @ evs')" using 1 2 by simp
  moreover have "list_all (on_channel (voice_channel tt)) (evs @ evs')" using 1 2 by simp
  moreover have "length (filter is_note_on (evs @ evs')) \<le> m + n" using 1 2 by simp
  ultimately show ?thesis using c1 c2 unfolding emitted_def by metis
qed

lemma emitted_refl: "emitted tt 0 g g"
  by (simp add: emitted_def)

lemma generate_loop_emitted:
  "generate_loop t is k tt lo hi n g = (g', e) \<Longrightarrow> emitted tt n g g'"
proof (induction n arbitrary: g)
  case 0
  then show ?case by (simp add: emitted_refl)
next
  case (Suc n)
  obtain g1 e1 where s: "generate_step t is k tt lo hi g = (g1, e1)"
    by (cases "generate_step t is k tt lo hi g")
  have 1: "emitted tt 1 g g1" by (rule generate_step_emitted [OF s])
  show ?case
  proof (cases e1)
    case None
    with Suc.prems s have "generate_loop t is k tt lo hi n g1 = (g', e)" by simp
    from emitted_trans [OF 1 Suc.IH [OF this]] show ?thesis by simp
  next
    case (Some x)
    with Suc.prems s have "g' = g1" by simp
    with 1 show ?thesis by (auto simp: emitted_def)
  qed
qed

lemma generate_track_emitted:
  assumes "generate_track c track tt len lo hi w = ((track', w'), e)"
  shows "\<exists>evs. track' = track @ evs \<and> list_all (on_channel (voice_channel tt)) evs
           \<and> length (filter is_note_on evs) \<le> nat len"
proof (cases "get_transitions c tt")
  case None
  with assms show ?thesis by (simp add: generate_track_def)
next
  case (Some t)
  show ?thesis
  proof (cases "t = []")
    case True
    with assms Some show ?thesis by (simp add: generate_track_def)
  next
    case False
    obtain r w1 where d: "draw w = (r, w1)" by (cases "draw w")
    define g0 where "g0 = \<lparr>current_state = choice (map fst t) r,
      generated_notes = choice (map fst t) r, out_track = track, channel = None, gen_world = w1\<rparr>"
    obtain g e1 where l: "generate_loop t (map fst t) (order c) tt lo hi (nat len) g0 = (g, e1)"
      by (cases "generate_loop t (map fst t) (order c) tt lo hi (nat len) g0")
    from generate_loop_emitted [OF l] obtain evs where
      evs: "out_track g = track @ evs" "list_all (on_channel (voice_channel tt)) evs"
        "length (filter is_note_on evs) \<le> nat len"
      and ch: "channel g = None \<or> channel g = Some (voice_channel tt)"
      by (auto simp: emitted_def g0_def)
    from assms Some False d l have r: "((track', w'), e) =
       (case e1 of Some x \<Rightarrow> ((out_track g, gen_world g), Some x)
        | None \<Rightarrow> if generated_notes g = [] then ((out_track g, gen_world g), Some IndexError)
            else case channel g of None \<Rightarrow> ((out_track g, gen_world g), Some UnboundLocalError)
              | Some ch \<Rightarrow> ((out_track g @ [NoteOff (last (generated_notes g)) 0 0 ch],
                              gen_world g), None))"
      by (simp add: generate_track_def Let_def g0_def split: option.splits)
    show ?thesis
    proof (cases "e1 = None \<and> generated_notes g \<noteq> [] \<and> channel g \<noteq> None")
      case True
      with ch r have "track' = track @ (evs @ [NoteOff (last (generated_notes g)) 0 0 (voice_channel tt)])"
        using evs by auto
      moreover have "list_all (on_channel (voice_channel tt))
          (evs @ [NoteOff (last (generated_notes g)) 0 0 (voice_channel tt)])"
        using evs by simp
      moreover have "length (filter is_note_on
          (evs @ [NoteOff (last (generated_notes g)) 0 0 (voice_channel tt)])) \<le> nat len"
        using evs by simp
      ultimately show ?thesis by blast
    next
      case False
      with r have "track' = out_track g" by (auto split: option.splits if_splits)
      with evs show ?thesis by blast
    qed
  qed
qed

lemma extract_notes_append:
  "extract_notes_from_track (xs @ ys) = extract_notes_from_track xs @ extract_notes_from_track ys"
  by (induction xs rule: extract_notes_from_track.induct) auto

lemma positive_lookup:
  assumes "positive t" "map_of t s = Some d"
  shows "d \<noteq> [] \<and> 0 < sum_list (map snd d)"
proof -
  from assms(2) have "(s, d) \<in> set t" by (rule map_of_SomeD)
  with assms(1) have "d \<noteq> []" "\<forall>(n, v) \<in> set d. 0 < v" by (auto simp: positive_def)
  with sum_list_pos_dist show ?thesis by blast
qed

lemma generate_step_closing:
  assumes "positive t" "closing g" "0 < lo" "lo \<le> hi"
  shows "\<exists>g'. generate_step t is k tt lo hi g = (g', None) \<and> closing g'
           \<and> (channel g \<noteq> None \<or> map_of t (current_state g) \<noteq> None \<longrightarrow> channel g' \<noteq> None)"
proof (cases "map_of t (current_state g)")
  case None
  with assms show ?thesis
    by (auto simp: generate_step_def closing_def split: prod.splits)
next
  case (Some d)
  from positive_lookup [OF assms(1) Some] have d: "d \<noteq> []" "0 < sum_list (map snd d)" by simp_all
  with Some assms(2,3,4) show ?thesis
    by (auto simp: generate_step_def closing_def Let_def extract_notes_append split: prod.splits)
qed

lemma generate_loop_closing:
  assumes "positive t" "closing g" "0 < lo" "lo \<le> hi"
  shows "\<exists>g'. generate_loop t is k tt lo hi n g = (g', None) \<and> closing g'
           \<and> ((channel g \<noteq> None \<or> map_of t (current_state g) \<noteq> None \<and> 0 < n)
                \<longrightarrow> channel g' \<noteq> None)"
  using assms(2)
proof (induction n arbitrary: g)
  case 0
  then show ?case by simp
next
  case (Suc n)
  from generate_step_closing [OF assms(1) Suc.prems assms(3,4)]
  obtain g1 where s: "generate_step t is k tt lo hi g = (g1, None)" and c: "closing g1"
    and ch: "channel g \<noteq> None \<or> map_of t (current_state g) \<noteq> None \<longrightarrow> channel g1 \<noteq> None"
    by blast
  from Suc.IH [OF c] obtain g' where l: "generate_loop t is k tt lo hi n g1 = (g', None)"
    and c': "closing g'" and ch': "channel g1 \<noteq> None \<longrightarrow> channel g' \<noteq> None"
    by blast
  from s l c' ch ch' show ?case by auto
qed

text \<open>
  On a table left by training (every state a non-empty tuple with positive successor
  values), with \<open>length\<close> at least 1 and a velocity range inside the positive numbers,
  \<open>_generate_track\<close> raises nothing (\<open>mido.Message\<close> accepting the pitches of the table)
  and the track ends with the note-off of velocity 0 for the pitch of its last note-on.
\<close>

lemma generate_track_closes:
  assumes "get_transitions c tt = Some t" "positive t" "t \<noteq> []"
    and "\<forall>s \<in> set (map fst t). s \<noteq> []" and "0 < len" "0 < lo" "lo \<le> hi"
  shows "\<exists>evs p w'. generate_track c track tt len lo hi w =
            ((track @ evs @ [NoteOff p 0 0 (voice_channel tt)], w'), None)
          \<and> extract_notes_from_track (track @ evs) \<noteq> []
          \<and> last (extract_notes_from_track (track @ evs)) = p"
proof -
  obtain r w1 where d: "draw w = (r, w1)" by (cases "draw w")
  define st where "st = choice (map fst t) r"
  have "r mod length (map fst t) < length (map fst t)" using assms(3) by simp
  then have mem: "st \<in> set (map fst t)" unfolding st_def choice_def by (rule nth_mem)
  with assms(4) have ne: "st \<noteq> []" by blast
  from mem obtain d0 where "(st, d0) \<in> set t" by auto
  then have look: "map_of t st \<noteq> None" by (metis map_of_eq_None_iff image_eqI fst_conv)
  define g0 where "g0 = \<lparr>current_state = st, generated_notes = st, out_track = track,
      channel = None, gen_world = w1\<rparr>"
  have c0: "closing g0" using ne by (simp add: closing_def g0_def)
  from generate_loop_closing [OF assms(2) c0 assms(6,7), of "map fst t" "order c" tt "nat len"]
  obtain g where l: "generate_loop t (map fst t) (order c) tt lo hi (nat len) g0 = (g, None)"
    and cg: "closing g" and chg: "channel g \<noteq> None"
    using look assms(5) by (auto simp: g0_def)
  from generate_loop_emitted [OF l] chg obtain evs where
    evs: "out_track g = track @ evs" and ch: "channel g = Some (voice_channel tt)"
    by (auto simp: emitted_def g0_def)
  from cg chg have gn: "generated_notes g \<noteq> []"
    and lst: "extract_notes_from_track (out_track g) \<noteq> []"
      "last (extract_notes_from_track (out_track g)) = last (generated_notes g)"
    by (simp_all add: closing_def)
  have "generate_track c track tt len lo hi w =
      ((track @ evs @ [NoteOff (last (generated_notes g)) 0 0 (voice_channel tt)], gen_world g), None)"
    using assms(1,3) d l gn ch evs
    by (simp add: generate_track_def Let_def st_def [symmetric] g0_def [symmetric])
  with lst evs show ?thesis by auto
qed

subsection \<open>The output container\<close>

lemma draw_files: "draw w = (r, w') \<Longrightarrow> files w' = files w"
  by (auto simp: draw_def split: list.splits)

lemma generate_step_files:
  "generate_step t is k tt lo hi g = (g', e) \<Longrightarrow> files (gen_world g') = files (gen_world g)"
  unfolding generate_step_def
  by (auto simp: Let_def dest!: draw_files split: option.splits if_splits prod.splits)

lemma generate_loop_files:
  "generate_loop t is k tt lo hi n g = (g', e) \<Longrightarrow> files (gen_world g') = files (gen_world g)"
proof (induction n arbitrary: g)
  case 0
  then show ?case by simp
next
  case (Suc n)
  obtain g1 e1 where s: "generate_step t is k tt lo hi g = (g1, e1)"
    by (cases "generate_step t is k tt lo hi g")
  from generate_step_files [OF s] Suc show ?case
    by (cases e1) (auto simp: s)
qed

lemma generate_track_files:
  assumes "generate_track c track tt len lo hi w = ((track', w'), e)"
  shows "files w' = files w"
proof (cases "get_transitions c tt")
  case None
  with assms show ?thesis by (simp add: generate_track_def)
next
  case (Some t)
  show ?thesis
  proof (cases "t = []")
    case True
    with assms Some show ?thesis by (simp add: generate_track_def)
  next
    case False
    obtain r w1 where d: "draw w = (r, w1)" by (cases "draw w")
    define g0 where "g0 = \<lparr>current_state = choice (map fst t) r,
      generated_notes = choice (map fst t) r, out_track = track, channel = None, gen_world = w1\<rparr>"
    obtain g e1 where l: "generate_loop t (map fst t) (order c) tt lo hi (nat len) g0 = (g, e1)"
      by (cases "generate_loop t (map fst t) (order c) tt lo hi (nat len) g0")
    from generate_loop_files [OF l] draw_files [OF d] have "files (gen_world g) = files w"
      by (simp add: g0_def)
    moreover from assms Some False d l have "w' = gen_world g"
      by (auto simp: generate_track_def Let_def g0_def split: option.splits if_splits)
    ultimately show ?thesis by simp
  qed
qed

lemma generate_voice_emitted:
  assumes "generate_voice c t track tt len lo hi w = ((track', w'), e)"
  shows "(\<exists>evs. track' = track @ evs \<and> list_all (on_channel (voice_channel tt)) evs)
         \<and> files w' = files w"
proof (cases "t = []")
  case True
  with assms show ?thesis by (auto simp: generate_voice_def print_def)
next
  case False
  with assms have g: "generate_track c track tt len lo hi w = ((track', w'), e)"
    by (simp add: generate_voice_def)
  from generate_track_emitted [OF g] generate_track_files [OF g] show ?thesis by blast
qed

lemma note_pairs_append:
  "note_pairs ch lo hi prev xs = Some m \<Longrightarrow>
     note_pairs ch lo hi prev (xs @ ys) = note_pairs ch lo hi m ys"
  by (induction ch lo hi prev xs rule: note_pairs.induct) (auto split: option.splits)

lemma choice_mem: "xs \<noteq> [] \<Longrightarrow> choice xs r \<in> set xs"
  by (simp add: choice_def)

lemma generate_step_chain:
  assumes "chain tt lo hi tr p0 g" and "generate_step t is k tt lo hi g = (g', None)"
  shows "chain tt lo hi tr p0 g'"
proof -
  from assms(1) obtain evs where evs: "out_track g = tr @ evs"
    and inv: "if generated_notes g = [] then evs = [] \<and> channel g = None
            else note_pairs (voice_channel tt) lo hi p0 evs = Some (last (generated_notes g))
                 \<and> (channel g \<noteq> None \<longrightarrow> evs \<noteq> [])"
    unfolding chain_def by blast
  have miss: "chain tt lo hi tr p0 (g\<lparr>current_state := s, gen_world := w\<rparr>)" for s w
    unfolding chain_def using evs inv by (intro exI [of _ evs]) simp
  show ?thesis
  proof (cases "map_of t (current_state g)")
    case None
    with assms(2) miss show ?thesis
      by (auto simp: generate_step_def split: prod.splits)
  next
    case (Some d)
    show ?thesis
    proof (cases "d = []")
      case True
      with Some assms(2) miss show ?thesis
        by (auto simp: generate_step_def split: prod.splits)
    next
      case False
      obtain r1 w1 where d1: "draw (gen_world g) = (r1, w1)" by (cases "draw (gen_world g)")
      obtain r2 w2 where d2: "draw w1 = (r2, w2)" by (cases "draw w1")
      obtain r3 w3 where d3: "draw w2 = (r3, w3)" by (cases "draw w2")
      define n where "n = choice (map fst d) r1"
      define dur where "dur = choice note_durations r2"
      define v where "v = lo + int (r3 mod nat (hi - lo + 1))"
      define ch where "ch = voice_channel tt"
      from assms(2) Some False d1 d2 d3
      have ok: "\<not> hi < lo" "generated_notes g \<noteq> []"
        and g': "g' = g\<lparr>channel := Some ch, gen_world := w3,
                  out_track := out_track g @ [NoteOn n v dur ch, NoteOff (last (generated_notes g)) v 0 ch],
                  generated_notes := generated_notes g @ [n],
                  current_state := last_notes k (generated_notes g @ [n])\<rparr>"
        by (auto simp: generate_step_def Let_def n_def dur_def v_def ch_def voice_channel_def
            split: if_splits)
      have "r3 mod nat (hi - lo + 1) < nat (hi - lo + 1)" using ok(1) by simp
      then have "int (r3 mod nat (hi - lo + 1)) < hi - lo + 1" using ok(1) by linarith
      then have vr: "lo \<le> v" "v \<le> hi" by (simp_all add: v_def)
      have dr: "dur \<in> set note_durations"
        unfolding dur_def by (rule choice_mem) (simp add: note_durations_def)
      from inv ok(2) have np: "note_pairs ch lo hi p0 evs = Some (last (generated_notes g))"
        by (simp add: ch_def)
      have "note_pairs ch lo hi p0 (evs @ [NoteOn n v dur ch, NoteOff (last (generated_notes g)) v 0 ch])
          = Some n"
        using vr dr by (simp add: note_pairs_append [OF np])
      then show ?thesis
        unfolding chain_def g' using evs by (auto simp: ch_def)
    qed
  qed
qed

lemma generate_loop_chain:
  assumes "chain tt lo hi tr p0 g" and "generate_loop t is k tt lo hi n g = (g', None)"
  shows "chain tt lo hi tr p0 g'"
  using assms
proof (induction n arbitrary: g)
  case 0
  then show ?case by simp
next
  case (Suc n)
  obtain g1 e1 where s: "generate_step t is k tt lo hi g = (g1, e1)"
    by (cases "generate_step t is k tt lo hi g")
  with Suc.prems(2) have e1: "e1 = None" and l: "generate_loop t is k tt lo hi n g1 = (g', None)"
    by (cases e1; simp)+
  from generate_step_chain [OF Suc.prems(1) s [unfolded e1]] have "chain tt lo hi tr p0 g1" .
  from Suc.IH [OF this l] show ?case .
qed

lemma generate_track_stream:
  assumes "generate_track c track tt len lo hi w = ((track', w'), None)"
    and "get_transitions c tt = Some t" and "t \<noteq> []"
  shows "\<exists>evs. track' = track @ evs
           \<and> voice_events (voice_channel tt) lo hi (last (choice (map fst t) (fst (draw w)))) evs"
proof -
  obtain r w1 where d: "draw w = (r, w1)" by (cases "draw w")
  define st where "st = choice (map fst t) r"
  define g0 where "g0 = \<lparr>current_state = st, generated_notes = st, out_track = track,
      channel = None, gen_world = w1\<rparr>"
  obtain g e1 where l: "generate_loop t (map fst t) (order c) tt lo hi (nat len) g0 = (g, e1)"
    by (cases "generate_loop t (map fst t) (order c) tt lo hi (nat len) g0")
  from assms d l have r: "((track', w'), None) =
       (case e1 of Some x \<Rightarrow> ((out_track g, gen_world g), Some x)
        | None \<Rightarrow> if generated_notes g = [] then ((out_track g, gen_world g), Some IndexError)
            else case channel g of None \<Rightarrow> ((out_track g, gen_world g), Some UnboundLocalError)
              | Some ch \<Rightarrow> ((out_track g @ [NoteOff (last (generated_notes g)) 0 0 ch],
                              gen_world g), None))"
    by (simp add: generate_track_def Let_def st_def [symmetric] g0_def [symmetric]
        split: option.splits)
  then have e1: "e1 = None" by (cases e1) auto
  with r have gn: "generated_notes g \<noteq> []" by (auto split: if_splits)
  with r e1 obtain ch where ch: "channel g = Some ch"
    and tr: "track' = out_track g @ [NoteOff (last (generated_notes g)) 0 0 ch]"
    by (cases "channel g") auto
  from generate_loop_emitted [OF l] ch have vc: "ch = voice_channel tt"
    by (auto simp: emitted_def g0_def)
  have "chain tt lo hi track (last st) g0"
    by (simp add: chain_def g0_def)
  from generate_loop_chain [OF this l [unfolded e1]] gn ch
  obtain evs where evs: "out_track g = track @ evs" "evs \<noteq> []"
    "note_pairs (voice_channel tt) lo hi (last st) evs = Some (last (generated_notes g))"
    by (auto simp: chain_def)
  have "voice_events (voice_channel tt) lo hi (last st)
      (evs @ [NoteOff (last (generated_notes g)) 0 0 (voice_channel tt)])"
    using evs(2,3) by (simp add: voice_events_def)
  with tr evs(1) vc d show ?thesis by (auto simp: st_def)
qed

lemma generate_voice_stream:
  assumes "generate_voice c t track tt len lo hi w = ((track', w'), None)"
    and "get_transitions c tt = Some t"
  shows "\<exists>evs. track' = track @ evs \<and> list_all (on_channel (voice_channel tt)) evs
           \<and> length (filter is_note_on evs) \<le> nat len
           \<and> (if t = [] then evs = [] \<and> w' = print (SkippingGeneration tt) w
               else generate_track c track tt len lo hi w = ((track @ evs, w'), None)
                    \<and> voice_events (voice_channel tt) lo hi
                         (last (choice (map fst t) (fst (draw w)))) evs)"
proof (cases "t = []")
  case True
  with assms show ?thesis by (auto simp: generate_voice_def print_def)
next
  case False
  with assms have g: "generate_track c track tt len lo hi w = ((track', w'), None)"
    by (simp add: generate_voice_def)
  from generate_track_stream [OF g assms(2) False] obtain evs where
    evs: "track' = track @ evs"
      "voice_events (voice_channel tt) lo hi (last (choice (map fst t) (fst (draw w)))) evs"
    by blast
  from generate_track_emitted [OF g] evs(1)
  have "list_all (on_channel (voice_channel tt)) evs" "length (filter is_note_on evs) \<le> nat len"
    by auto
  with evs g False show ?thesis by auto
qed

text \<open>
  Claim C9. Whenever \<open>generate_music\<close> saves a container, which it does exactly when it
  raises nothing and one of the tables is non-empty, the container has two tracks, the
  melody track first and the bass track second. Each begins with the \<open>set_tempo\<close> message
  and the program change (73 on channel 0, 33 on channel 1), and what follows are the
  events \<open>_generate_track\<close> has appended for the voice (none when the table of the voice
  is empty): note-on and note-off events on the channel of the voice, at most \<open>length\<close>
  note-ons, in pairs of a note-on with the note-off of the previous pitch, closed by the
  note-off of velocity 0 for the last pitch. Otherwise the files are as they were.
\<close>

theorem generate_music_container:
  assumes "generate_music bpm2tempo c len output_path tempo w = (w', e)"
  shows "if e = None \<and> (melody c \<noteq> [] \<or> bass c \<noteq> [])
         then \<exists>t mel bas w1 w2. bpm2tempo tempo = Some t
                \<and> files w' = (files w)(output_path \<mapsto>
                      [[SetTempo t, ProgramChange 73 0] @ mel,
                       [SetTempo t, ProgramChange 33 1] @ bas])
                \<and> list_all (on_channel 0) mel \<and> list_all (on_channel 1) bas
                \<and> length (filter is_note_on mel) \<le> nat len
                \<and> length (filter is_note_on bas) \<le> nat len
                \<and> (if melody c = [] then mel = [] \<and> w1 = print (SkippingGeneration Melody) w
                    else generate_track c [SetTempo t, ProgramChange 73 0] Melody len 30 60 w
                           = (([SetTempo t, ProgramChange 73 0] @ mel, w1), None)
                         \<and> voice_events 0 30 60
                              (last (choice (map fst (melody c)) (fst (draw w)))) mel)
                \<and> (if bass c = [] then bas = [] \<and> w2 = print (SkippingGeneration Bass) w1
                    else generate_track c [SetTempo t, ProgramChange 33 1] Bass len 40 80 w1
                           = (([SetTempo t, ProgramChange 33 1] @ bas, w2), None)
                         \<and> voice_events 1 40 80
                              (last (choice (map fst (bass c)) (fst (draw w1)))) bas)
         else files w' = files w"
proof (cases "melody c = [] \<and> bass c = []")
  case True
  with assms show ?thesis by (auto simp: generate_music_def print_def)
next
  case nonempty: False
  show ?thesis
  proof (cases "bpm2tempo tempo")
    case None
    with assms nonempty show ?thesis by (auto simp: generate_music_def)
  next
    case (Some t)
    obtain mt w1 e1 where r1:
      "generate_voice c (melody c) [SetTempo t, ProgramChange 73 0] Melody len 30 60 w
         = ((mt, w1), e1)"
      by (metis prod.exhaust)
    from generate_voice_emitted [OF r1] have f1: "files w1 = files w" by simp
    obtain bt w2 e2 where r2:
      "generate_voice c (bass c) [SetTempo t, ProgramChange 33 1] Bass len 40 80 w1
         = ((bt, w2), e2)"
      by (metis prod.exhaust)
    from generate_voice_emitted [OF r2] have f2: "files w2 = files w1" by simp
    show ?thesis
    proof (cases e1)
      case (Some x)
      with assms nonempty \<open>bpm2tempo tempo = Some t\<close> r1 f1 show ?thesis
        by (auto simp: generate_music_def)
    next
      case None
      note e1 = this
      show ?thesis
      proof (cases e2)
        case (Some x)
        with assms nonempty \<open>bpm2tempo tempo = Some t\<close> r1 r2 e1 f1 f2 show ?thesis
          by (auto simp: generate_music_def)
      next
        case None
        note e2 = this
        from assms nonempty \<open>bpm2tempo tempo = Some t\<close> r1 r2 e1 e2 have e: "e = None"
          and fw: "files w' = (files w2)(output_path \<mapsto> [mt, bt])"
          by (auto simp: generate_music_def print_def)
        have v: "voice_channel Melody = 0" "voice_channel Bass = 1"
          by (simp_all add: voice_channel_def)
        have gt: "get_transitions c Melody = Some (melody c)"
          "get_transitions c Bass = Some (bass c)" by simp_all
        from generate_voice_stream [OF r1 [unfolded e1] gt(1), unfolded v] obtain mel where
          m: "mt = [SetTempo t, ProgramChange 73 0] @ mel" "list_all (on_channel 0) mel"
            "length (filter is_note_on mel) \<le> nat len"
            "if melody c = [] then mel = [] \<and> w1 = print (SkippingGeneration Melody) w
             else generate_track c [SetTempo t, ProgramChange 73 0] Melody len 30 60 w
                    = (([SetTempo t, ProgramChange 73 0] @ mel, w1), None)
                  \<and> voice_events 0 30 60 (last (choice (map fst (melody c)) (fst (draw w)))) mel"
          by (elim exE conjE) (rule that)
        from generate_voice_stream [OF r2 [unfolded e2] gt(2), unfolded v] obtain bas where
          b: "bt = [SetTempo t, ProgramChange 33 1] @ bas" "list_all (on_channel 1) bas"
            "length (filter is_note_on bas) \<le> nat len"
            "if bass c = [] then bas = [] \<and> w2 = print (SkippingGeneration Bass) w1
             else generate_track c [SetTempo t, ProgramChange 33 1] Bass len 40 80 w1
                    = (([SetTempo t, ProgramChange 33 1] @ bas, w2), None)
                  \<and> voice_events 1 40 80 (last (choice (map fst (bass c)) (fst (draw w1)))) bas"
          by (elim exE conjE) (rule that)
        have fin: "files w' = (files w)(output_path \<mapsto>
            [[SetTempo t, ProgramChange 73 0] @ mel, [SetTempo t, ProgramChange 33 1] @ bas])"
          using fw f1 f2 by (simp only: m(1) b(1))
        have cond: "e = None \<and> (melody c \<noteq> [] \<or> bass c \<noteq> [])" using e nonempty by simp
        show ?thesis
          unfolding if_P [OF cond]
        proof (intro exI conjI)
          show "bpm2tempo tempo = Some t" by fact
          show "files w' = (files w)(output_path \<mapsto>
            [[SetTempo t, ProgramChange 73 0] @ mel, [SetTempo t, ProgramChange 33 1] @ bas])"
            by (rule fin)
          show "list_all (on_channel 0) mel" by (rule m(2))
          show "list_all (on_channel 1) bas" by (rule b(2))
          show "length (filter is_note_on mel) \<le> nat len" by (rule m(3))
          show "length (filter is_note_on bas) \<le> nat len" by (rule b(3))
          show "if melody c = [] then mel = [] \<and> w1 = print (SkippingGeneration Melody) w
             else generate_track c [SetTempo t, ProgramChange 73 0] Melody len 30 60 w
                    = (([SetTempo t, ProgramChange 73 0] @ mel, w1), None)
                  \<and> voice_events 0 30 60 (last (choice (map fst (melody c)) (fst (draw w)))) mel"
            by (rule m(4))
          show "if bass c = [] then bas = [] \<and> w2 = print (SkippingGeneration Bass) w1
             else generate_track c [SetTempo t, ProgramChange 33 1] Bass len 40 80 w1
                    = (([SetTempo t, ProgramChange 33 1] @ bas, w2), None)
                  \<and> voice_events 1 40 80 (last (choice (map fst (bass c)) (fst (draw w1)))) bas"
            by (rule b(4))
        qed
      qed
    qed
  qed
qed

text \<open>The theorem at a composer with both tables, where each track gets three notes.\<close>

lemma generate_music_duet:
  "snd (generate_music tempo_of duet 3 ''generated_music.mid'' 120 session) = None"
  "files (fst (generate_music tempo_of duet 3 ''generated_music.mid'' 120 session))
     ''generated_music.mid'' =
   Some [[SetTempo 500000, ProgramChange 73 0, NoteOn 60 34 360 0, NoteOff 64 34 0 0,
          NoteOn 62 37 240 0, NoteOff 60 37 0 0, NoteOn 64 40 60 0, NoteOff 62 40 0 0,
          NoteOff 64 0 0 0],
         [SetTempo 500000, ProgramChange 33 1, NoteOn 38 54 360 1, NoteOff 36 54 0 1,
          NoteOn 40 57 240 1, NoteOff 38 57 0 1, NoteOn 36 60 60 1, NoteOff 40 60 0 1,
          NoteOff 36 0 0 1]]"
  by code_simp+

theorem generate_music_container_witness:
  "snd (generate_music tempo_of duet 3 ''generated_music.mid'' 120 session) = None
   \<and> melody duet \<noteq> [] \<and> bass duet \<noteq> []
   \<and> files (fst (generate_music tempo_of duet 3 ''generated_music.mid'' 120 session))
        ''generated_music.mid'' =
      Some [[SetTempo 500000, ProgramChange 73 0, NoteOn 60 34 360 0, NoteOff 64 34 0 0,
             NoteOn 62 37 240 0, NoteOff 60 37 0 0, NoteOn 64 40 60 0, NoteOff 62 40 0 0,
             NoteOff 64 0 0 0],
            [SetTempo 500000, ProgramChange 33 1, NoteOn 38 54 360 1, NoteOff 36 54 0 1,
             NoteOn 40 57 240 1, NoteOff 38 57 0 1, NoteOn 36 60 60 1, NoteOff 40 60 0 1,
             NoteOff 36 0 0 1]]
   \<and> (\<exists>t mel bas w1 w2. tempo_of 120 = Some t
        \<and> files (fst (generate_music tempo_of duet 3 ''generated_music.mid'' 120 session))
             = (files session)(''generated_music.mid'' \<mapsto>
                  [[SetTempo t, ProgramChange 73 0] @ mel,
                   [SetTempo t, ProgramChange 33 1] @ bas])
        \<and> list_all (on_channel 0) mel \<and> list_all (on_channel 1) bas
        \<and> length (filter is_note_on mel) \<le> nat 3
        \<and> length (filter is_note_on bas) \<le> nat 3
        \<and> (if melody duet = [] then mel = [] \<and> w1 = print (SkippingGeneration Melody) session
            else generate_track duet [SetTempo t, ProgramChange 73 0] Melody 3 30 60 session
                   = (([SetTempo t, ProgramChange 73 0] @ mel, w1), None)
                 \<and> voice_events 0 30 60
                      (last (choice (map fst (melody duet)) (fst (draw session)))) mel)
        \<and> (if bass duet = [] then bas = [] \<and> w2 = print (SkippingGeneration Bass) w1
            else generate_track duet [SetTempo t, ProgramChange 33 1] Bass 3 40 80 w1
                   = (([SetTempo t, ProgramChange 33 1] @ bas, w2), None)
                 \<and> voice_events 1 40 80
                      (last (choice (map fst (bass duet)) (fst (draw w1)))) bas))"
proof -
  let ?r = "generate_music tempo_of duet 3 ''generated_music.mid'' 120 session"
  have ne: "melody duet \<noteq> []" "bass duet \<noteq> []"
    by (simp_all add: duet_def cycle_table_def bass_table_def)
  have cond: "snd ?r = None \<and> (melody duet \<noteq> [] \<or> bass duet \<noteq> [])"
    using generate_music_duet(1) ne by simp
  have "?r = (fst ?r, snd ?r)" by simp
  from generate_music_container [OF this, unfolded if_P [OF cond]]
    generate_music_duet ne
  show ?thesis by blast
qed

subsection \<open>The round trip of the three-note cycle\<close>

lemma count_cycle: "count_transitions 2 cycle_notes [] =
   [([60, 62], [(64, 30)]), ([62, 64], [(60, 29)]), ([64, 60], [(62, 29)])]"
  by code_simp

lemma build_cycle:
  "build_transitions cycle_notes Melody (MarkovComposer 2, w) =
     ((\<lparr>order = 2, melody = cycle_table, bass = []\<rparr>, w), None)"
proof -
  have "length cycle_notes = 90" by code_simp
  then show ?thesis
    by (simp add: build_transitions_def MarkovComposer_def count_cycle normalize_dist_def
        cycle_table_def)
qed

lemma cycle_step:
  assumes "generate_step cycle_table (map fst cycle_table) 2 tt 30 60 g = (g', e)"
    and "current_state g = [a, b]" "[a, b] \<in> set (map fst cycle_table)"
    and "generated_notes g = pre @ [a, b]"
  shows "e = None \<and> current_state g' = [b, next_in_cycle b]
     \<and> [b, next_in_cycle b] \<in> set (map fst cycle_table)
     \<and> generated_notes g' = (pre @ [a]) @ [b, next_in_cycle b]
     \<and> extract_notes_from_track (out_track g') =
         extract_notes_from_track (out_track g) @ [next_in_cycle b]
     \<and> channel g' = Some (voice_channel tt)"
  using assms
  by (auto simp: generate_step_def cycle_table_def Let_def choice_def last_notes_def
      extract_notes_append voice_channel_def split: prod.splits)

lemma cycle_loop:
  assumes "generate_loop cycle_table (map fst cycle_table) 2 tt 30 60 n g = (g', e)"
    and "current_state g = [a, b]" "[a, b] \<in> set (map fst cycle_table)"
    and "generated_notes g = pre @ [a, b]"
  shows "e = None \<and> generated_notes g' = generated_notes g @ cycle_after b n
     \<and> extract_notes_from_track (out_track g') =
         extract_notes_from_track (out_track g) @ cycle_after b n
     \<and> (0 < n \<longrightarrow> channel g' = Some (voice_channel tt))"
  using assms
proof (induction n arbitrary: g a b pre)
  case 0
  then show ?case by simp
next
  case (Suc n)
  obtain g1 e1 where s: "generate_step cycle_table (map fst cycle_table) 2 tt 30 60 g = (g1, e1)"
    by (cases "generate_step cycle_table (map fst cycle_table) 2 tt 30 60 g")
  from cycle_step [OF s Suc.prems(2,3,4)]
  have 1: "e1 = None" "current_state g1 = [b, next_in_cycle b]"
    "[b, next_in_cycle b] \<in> set (map fst cycle_table)"
    "generated_notes g1 = (pre @ [a]) @ [b, next_in_cycle b]"
    "extract_notes_from_track (out_track g1) =
       extract_notes_from_track (out_track g) @ [next_in_cycle b]"
    "channel g1 = Some (voice_channel tt)"
    by simp_all
  from Suc.prems(1) s 1(1)
  have l: "generate_loop cycle_table (map fst cycle_table) 2 tt 30 60 n g1 = (g', e)" by simp
  from Suc.IH [OF l 1(2,3,4)]
  have 2: "e = None" "generated_notes g' = generated_notes g1 @ cycle_after (next_in_cycle b) n"
    "extract_notes_from_track (out_track g') =
       extract_notes_from_track (out_track g1) @ cycle_after (next_in_cycle b) n"
    "0 < n \<longrightarrow> channel g' = Some (voice_channel tt)"
    by simp_all
  have ch: "channel g' = Some (voice_channel tt)"
  proof (cases n)
    case 0
    with l 1(6) show ?thesis by simp
  next
    case (Suc m)
    with 2(4) show ?thesis by simp
  qed
  from 1 2 ch Suc.prems(4) show ?case by simp
qed

lemma cycle_track:
  assumes "generate_track \<lparr>order = 2, melody = cycle_table, bass = bt\<rparr> tr Melody len 30 60 w
             = ((tr', w'), e)"
  shows "choice (map fst cycle_table) (fst (draw w)) \<in> set (map fst cycle_table)
     \<and> extract_notes_from_track tr' = extract_notes_from_track tr @
         cycle_after (last (choice (map fst cycle_table) (fst (draw w)))) (nat len)
     \<and> (0 < len \<longrightarrow> e = None)"
proof -
  obtain r w1 where d: "draw w = (r, w1)" by (cases "draw w")
  define st where "st = choice (map fst cycle_table) r"
  have "r mod 3 < 3" by simp
  then have "r mod 3 = 0 \<or> r mod 3 = 1 \<or> r mod 3 = 2" by linarith
  then have mem: "st \<in> set (map fst cycle_table)"
    by (auto simp: st_def choice_def cycle_table_def)
  then obtain a b where ab: "st = [a, b]" by (auto simp: cycle_table_def)
  define g0 where "g0 = \<lparr>current_state = st, generated_notes = st, out_track = tr,
      channel = None, gen_world = w1\<rparr>"
  obtain g e1 where l:
    "generate_loop cycle_table (map fst cycle_table) 2 Melody 30 60 (nat len) g0 = (g, e1)"
    by (cases "generate_loop cycle_table (map fst cycle_table) 2 Melody 30 60 (nat len) g0")
  have "current_state g0 = [a, b]" "[a, b] \<in> set (map fst cycle_table)"
    "generated_notes g0 = [] @ [a, b]"
    using mem ab by (simp_all add: g0_def)
  from cycle_loop [OF l this]
  have 1: "e1 = None" "generated_notes g = st @ cycle_after b (nat len)"
    "extract_notes_from_track (out_track g) = extract_notes_from_track tr @ cycle_after b (nat len)"
    "0 < nat len \<longrightarrow> channel g = Some (voice_channel Melody)"
    by (simp_all add: g0_def ab)
  have ne: "cycle_table \<noteq> []" by (simp add: cycle_table_def)
  have gn: "generated_notes g \<noteq> []" using 1(2) ab by simp
  have gt: "((tr', w'), e) =
     (case channel g of None \<Rightarrow> ((out_track g, gen_world g), Some UnboundLocalError)
      | Some ch \<Rightarrow> ((out_track g @ [NoteOff (last (generated_notes g)) 0 0 ch], gen_world g), None))"
    using assms d l 1(1) gn ne
    by (simp add: generate_track_def Let_def st_def [symmetric] g0_def [symmetric])
  have "extract_notes_from_track tr' = extract_notes_from_track (out_track g)"
    using gt by (auto simp: extract_notes_append split: option.splits)
  moreover have "0 < len \<longrightarrow> e = None" using gt 1(4) by auto
  moreover have "last st = b" by (simp add: ab)
  ultimately show ?thesis using mem 1(3) d by (simp add: st_def)
qed

text \<open>
  Claim C4. \<open>_build_transitions\<close> at order 2 on 60, 62, 64 repeated 30 times gives exactly
  the table (60,62) \<rightarrow> {64: 1}, (62,64) \<rightarrow> {60: 1}, (64,60) \<rightarrow> {62: 1}. The generation loop
  started at any of these states raises nothing, whatever the random source, and after
  \<open>n\<close> iterations the generated pitches are the state followed by the next \<open>n\<close> pitches
  of the cycle, which are also the pitches of the note-on events appended.
  \<open>_generate_track\<close> on this table draws one of the three states and appends note-on
  events whose pitches continue the cycle after it.
\<close>

theorem cycle_round_trip:
  "build_transitions cycle_notes Melody (MarkovComposer 2, w) =
     ((\<lparr>order = 2, melody = cycle_table, bass = []\<rparr>, w), None)
   \<and> (\<forall>st \<in> set (map fst cycle_table). \<forall>n tr ch w1 g' e.
        generate_loop cycle_table (map fst cycle_table) 2 Melody 30 60 n
          \<lparr>current_state = st, generated_notes = st, out_track = tr, channel = ch,
           gen_world = w1\<rparr> = (g', e) \<longrightarrow>
        e = None \<and> generated_notes g' = st @ cycle_after (last st) n
        \<and> extract_notes_from_track (out_track g') =
            extract_notes_from_track tr @ cycle_after (last st) n)
   \<and> (\<forall>len tr w1 tr' w' e.
        generate_track \<lparr>order = 2, melody = cycle_table, bass = []\<rparr> tr Melody len 30 60 w1
          = ((tr', w'), e) \<longrightarrow>
        choice (map fst cycle_table) (fst (draw w1)) \<in> set (map fst cycle_table)
        \<and> extract_notes_from_track tr' = extract_notes_from_track tr @
            cycle_after (last (choice (map fst cycle_table) (fst (draw w1)))) (nat len)
        \<and> (0 < len \<longrightarrow> e = None))"
proof (intro conjI ballI allI impI)
  show "build_transitions cycle_notes Melody (MarkovComposer 2, w) =
     ((\<lparr>order = 2, melody = cycle_table, bass = []\<rparr>, w), None)"
    by (rule build_cycle)
next
  fix st n tr ch w1 g' e
  assume st: "st \<in> set (map fst cycle_table)"
    and l: "generate_loop cycle_table (map fst cycle_table) 2 Melody 30 60 n
          \<lparr>current_state = st, generated_notes = st, out_track = tr, channel = ch,
           gen_world = w1\<rparr> = (g', e)"
  from st obtain a b where ab: "st = [a, b]" by (auto simp: cycle_table_def)
  have "current_state \<lparr>current_state = st, generated_notes = st, out_track = tr, channel = ch,
           gen_world = w1\<rparr> = [a, b]" "[a, b] \<in> set (map fst cycle_table)"
    "generated_notes \<lparr>current_state = st, generated_notes = st, out_track = tr, channel = ch,
           gen_world = w1\<rparr> = [] @ [a, b]"
    using st ab by simp_all
  from cycle_loop [OF l this] ab
  show "e = None" and "generated_notes g' = st @ cycle_after (last st) n"
    and "extract_notes_from_track (out_track g') =
            extract_notes_from_track tr @ cycle_after (last st) n"
    by simp_all
next
  fix len tr w1 tr' w' e
  assume g: "generate_track \<lparr>order = 2, melody = cycle_table, bass = []\<rparr> tr Melody len 30 60 w1
          = ((tr', w'), e)"
  from cycle_track [OF g]
  show "choice (map fst cycle_table) (fst (draw w1)) \<in> set (map fst cycle_table)"
    and "extract_notes_from_track tr' = extract_notes_from_track tr @
            cycle_after (last (choice (map fst cycle_table) (fst (draw w1)))) (nat len)"
    and "0 < len \<Longrightarrow> e = None"
    by simp_all
qed

theorem cycle_round_trip_witness:
  "[60, 62] \<in> set (map fst cycle_table)
   \<and> generated_notes (fst (generate_loop cycle_table (map fst cycle_table) 2 Melody 30 60 4
        \<lparr>current_state = [60, 62], generated_notes = [60, 62], out_track = [], channel = None,
         gen_world = silence\<rparr>)) = [60, 62, 64, 60, 62, 64]
   \<and> extract_notes_from_track (fst (fst (generate_track
        \<lparr>order = 2, melody = cycle_table, bass = []\<rparr> [] Melody 4 30 60 silence)))
      = [64, 60, 62, 64]"
proof -
  let ?g0 = "\<lparr>current_state = [60, 62], generated_notes = [60, 62], out_track = [],
    channel = None, gen_world = silence\<rparr>"
  let ?l = "generate_loop cycle_table (map fst cycle_table) 2 Melody 30 60 4 ?g0"
  let ?t = "generate_track \<lparr>order = 2, melody = cycle_table, bass = []\<rparr> [] Melody 4 30 60
    silence"
  have mem: "[60, 62] \<in> set (map fst cycle_table)" by (simp add: cycle_table_def)
  have four: "cycle_after 62 4 = [64, 60, 62, 64]" by (simp add: eval_nat_numeral)
  have st: "choice (map fst cycle_table) (fst (draw silence)) = [60, 62]"
    by (simp add: cycle_table_def choice_def draw_def silence_def)
  from cycle_round_trip [of silence] mem
  have "?l = (fst ?l, snd ?l) \<longrightarrow> generated_notes (fst ?l) = [60, 62] @ cycle_after (last [60, 62]) 4"
    by blast
  then have 1: "generated_notes (fst ?l) = [60, 62, 64, 60, 62, 64]" by (simp add: four)
  from cycle_round_trip [of silence]
  have "?t = ((fst (fst ?t), snd (fst ?t)), snd ?t) \<longrightarrow>
     extract_notes_from_track (fst (fst ?t)) = extract_notes_from_track [] @
       cycle_after (last (choice (map fst cycle_table) (fst (draw silence)))) (nat 4)"
    by blast
  then have 2: "extract_notes_from_track (fst (fst ?t)) = [64, 60, 62, 64]"
    by (simp add: st four)
  from mem 1 2 show ?thesis by blast
qed

end
